theory Spec2Isabelle
  imports
    Main
    "HOL-Library.FSet"
    "HOL-Library.Char_ord"
    "HOL-Library.List_Lexorder"
    "HOL-Library.Product_Lexorder"
begin

section \<open>Python strings\<close>

text \<open>
  A Python \<open>str\<close> is modelled as a \<open>string\<close> whose characters are the code points
  below 256. The string methods used by \<open>webcrawler.py\<close> are written out for that
  range: \<open>str.lower\<close>, \<open>str.strip\<close>, \<open>str.rstrip(chars)\<close>, \<open>str.count(sub)\<close> and
  the operator \<open>sub in s\<close>. Strings are compared as Python compares them, character by
  character on the code points (the lexicographic order of \<open>List_Lexorder\<close> over
  \<open>Char_ord\<close>).
\<close>

definition char_lower :: "char \<Rightarrow> char" where
  "char_lower c =
     (let n = (of_char c :: nat)
      in if (65 \<le> n \<and> n \<le> 90) \<or> (192 \<le> n \<and> n \<le> 222 \<and> n \<noteq> 215)
         then char_of (n + 32) else c)"

definition lower :: "string \<Rightarrow> string" where
  "lower s = map char_lower s"

definition isspace :: "char \<Rightarrow> bool" where
  "isspace c =
     (let n = (of_char c :: nat)
      in (9 \<le> n \<and> n \<le> 13) \<or> (28 \<le> n \<and> n \<le> 32) \<or> n = 133 \<or> n = 160)"

definition strip :: "string \<Rightarrow> string" where
  "strip s = rev (dropWhile isspace (rev (dropWhile isspace s)))"

definition rstrip :: "string \<Rightarrow> string \<Rightarrow> string" where
  "rstrip chars s = rev (dropWhile (\<lambda>c. c \<in> set chars) (rev s))"

text \<open>
  \<open>s.count(sub)\<close>: the number of non-overlapping occurrences of \<open>sub\<close> in \<open>s\<close>, found
  from left to right; for the empty \<open>sub\<close> it is \<open>len(s) + 1\<close>. The first argument of
  \<open>count_from\<close> is the number of characters still covered by the occurrence found last.
\<close>

fun count_from :: "nat \<Rightarrow> string \<Rightarrow> string \<Rightarrow> nat" where
  "count_from k sub [] = 0"
| "count_from (Suc k) sub (c # cs) = count_from k sub cs"
| "count_from 0 sub (c # cs) =
     (if take (length sub) (c # cs) = sub
      then Suc (count_from (length sub - 1) sub cs)
      else count_from 0 sub cs)"

definition py_count :: "string \<Rightarrow> string \<Rightarrow> nat" where
  "py_count s sub = (if sub = [] then length s + 1 else count_from 0 sub s)"

text \<open>\<open>sub in s\<close> on strings: \<open>sub\<close> occurs in \<open>s\<close> as a contiguous substring.\<close>

fun contains :: "string \<Rightarrow> string \<Rightarrow> bool" where
  "contains [] sub = (sub = [])"
| "contains (c # cs) sub = (take (length sub) (c # cs) = sub \<or> contains cs sub)"

section \<open>Python dictionaries with insertion order\<close>

type_synonym ('k, 'v) dict = "('k \<times> 'v) list"

text \<open>\<open>d[k] = v\<close>: an existing key keeps its position.\<close>

fun dict_set :: "('k, 'v) dict \<Rightarrow> 'k \<Rightarrow> 'v \<Rightarrow> ('k, 'v) dict" where
  "dict_set [] k v = [(k, v)]"
| "dict_set ((k', v') # d) k v =
     (if k' = k then (k, v) # d else (k', v') # dict_set d k v)"

text \<open>\<open>d.setdefault(k, []).extend(vs)\<close>.\<close>

fun dict_extend :: "('k, 'v list) dict \<Rightarrow> 'k \<Rightarrow> 'v list \<Rightarrow> ('k, 'v list) dict" where
  "dict_extend [] k vs = [(k, vs)]"
| "dict_extend ((k', old) # d) k vs =
     (if k' = k then (k', old @ vs) # d else (k', old) # dict_extend d k vs)"

section \<open>The frontier\<close>

text \<open>
  Best-first search keeps tuples \<open>(score, url, depth)\<close> in a \<open>heapq\<close> heap. The heap is
  modelled by its contract: \<open>heappush\<close> adds an item, \<open>heappop\<close> removes and returns the
  smallest item, and raises \<open>IndexError\<close> (here \<open>None\<close>) on an empty heap. Python
  compares the tuples lexicographically, which is the order of \<open>Product_Lexorder\<close>;
  the order is total, so the item returned does not depend on the layout of the heap.
  Depth-first search keeps pairs \<open>(url, depth)\<close> in a list used as a stack.
\<close>

type_synonym item = "int \<times> string \<times> int"

definition heappush :: "item list \<Rightarrow> item \<Rightarrow> item list" where
  "heappush heap x = heap @ [x]"

definition heappop :: "item list \<Rightarrow> (item \<times> item list) option" where
  "heappop heap =
     (if heap = [] then None
      else let m = min_list heap in Some (m, remove1 m heap))"

definition stack_pop :: "'a list \<Rightarrow> ('a \<times> 'a list) option" where
  "stack_pop stack = (if stack = [] then None else Some (last stack, butlast stack))"

section \<open>Pages and helper functions\<close>

text \<open>
  What the crawler reads from a parsed page (the \<open>soup\<close>): the texts of its
  \<open>h2\<close>, \<open>h3\<close>, \<open>h4\<close> and \<open>li\<close> tags in document order, its anchors with an
  \<open>href\<close> (the \<open>href\<close> and the anchor's text), and the text of the whole page.
\<close>

record page =
  headings :: "string list"
  anchors :: "(string \<times> string) list"
  get_text :: string

type_synonym categories = "(string, string list) dict"

definition extract_categories :: "page \<Rightarrow> categories" where
  "extract_categories soup =
     foldl (\<lambda>categories tag.
              let text = lower (strip tag)
              in if length text \<ge> 3 then dict_set categories text [] else categories)
       [] (headings soup)"

definition keyword_heuristic_score :: "string \<Rightarrow> string list \<Rightarrow> int" where
  "keyword_heuristic_score content keywords =
     foldl (\<lambda>score keyword. score + int (py_count (lower content) (lower keyword)))
       0 keywords"

text \<open>
  The inner loop over the categories of a page: a category that occurs in the anchor's
  text (stripped, lower case) gets the link appended.
\<close>

definition add_link :: "categories \<Rightarrow> string \<Rightarrow> string \<Rightarrow> categories" where
  "add_link categories tag_text link =
     map (\<lambda>(category, urls).
            (category,
             if contains (lower (strip tag_text)) category then urls @ [link] else urls))
       categories"

text \<open>
  The loop that merges the categories of a page into the result. \<open>set(urls)\<close> removes
  the duplicates; Python leaves the order of a set open, the model keeps the order of
  \<open>remdups\<close>.
\<close>

fun merge_categories :: "categories \<Rightarrow> categories \<Rightarrow> categories" where
  "merge_categories [] categorized_urls = categorized_urls"
| "merge_categories ((category, urls) # rest) categorized_urls =
     merge_categories rest
       (if urls \<noteq> [] then dict_extend categorized_urls category (remdups urls)
        else categorized_urls)"

section \<open>The world and the arguments of a crawl\<close>

text \<open>
  The crawl reads the web through two functions, which are parameters of the model.
  \<open>fetch_page n url\<close> is \<open>urllib.request.urlopen(url)\<close> followed by
  \<open>BeautifulSoup(response, 'html.parser')\<close> in the loop iteration number \<open>n\<close> (counted
  from 0): \<open>Inr soup\<close> when both succeed and \<open>Inl msg\<close> when one of them raises an
  exception \<open>e\<close> with \<open>str(e) = msg\<close>; the outcome may differ between iterations.
  \<open>urljoin base href\<close> is \<open>urllib.parse.urljoin\<close>, which raises on some malformed
  addresses (\<open>Inl msg\<close>).
\<close>

record world =
  fetch_page :: "nat \<Rightarrow> string \<Rightarrow> string + page"
  urljoin :: "string \<Rightarrow> string \<Rightarrow> string + string"

text \<open>
  The parameters of \<open>bfs_crawl\<close> and \<open>dfs_crawl\<close>. \<open>keywords_arg\<close> (the parameter \<open>keywords\<close>) is \<open>None\<close> or a list.
  \<open>progress_callback\<close> says whether a callback was passed; its calls are recorded in
  the state. \<open>stop_event\<close> is \<open>None\<close> or an event whose \<open>is_set()\<close> answers \<open>f k\<close> to
  the poll number \<open>k\<close> (counted from 0), so that the flag may be set at any time.
\<close>

record args =
  start_url :: string
  max_pages :: int
  max_depth :: int
  keywords_arg :: "string list option"
  progress_callback :: bool
  stop_event :: "(nat \<Rightarrow> bool) option"

text \<open>
  The variables of the loop that both functions share (\<open>visited\<close>,
  \<open>categorized_urls\<close>), and a record of what the run did to the outside: the number of
  loop bodies started (\<open>iterations\<close>), the number of calls of \<open>is_set()\<close> (\<open>polls\<close>), the
  calls of \<open>urlopen\<close> with the depth of the item fetched (\<open>fetch_log\<close>), the calls of
  \<open>log_error\<close> (\<open>error_log\<close>) and the calls of the progress callback
  (\<open>progress_log\<close>). \<open>bfs_state\<close> adds the heap \<open>queue\<close>, \<open>dfs_state\<close> the list
  \<open>stack\<close>.
\<close>

record crawl_state =
  visited :: "string fset"
  categorized_urls :: categories
  iterations :: nat
  polls :: nat
  fetch_log :: "(string \<times> int) list"
  error_log :: "(string \<times> string) list"
  progress_log :: "(nat \<times> int) list"

record bfs_state = crawl_state +
  queue :: "item list"

record dfs_state = crawl_state +
  stack :: "(string \<times> int) list"

definition log_error :: "string \<Rightarrow> string \<Rightarrow> 'a crawl_state_scheme \<Rightarrow> 'a crawl_state_scheme" where
  "log_error url error_message s = s\<lparr>error_log := error_log s @ [(url, error_message)]\<rparr>"

definition call_progress :: "args \<Rightarrow> 'a crawl_state_scheme \<Rightarrow> 'a crawl_state_scheme" where
  "call_progress a s =
     (if progress_callback a
      then s\<lparr>progress_log := progress_log s @ [(fcard (visited s), max_pages a)]\<rparr>
      else s)"

text \<open>\<open>if stop_event and stop_event.is_set()\<close>: the answer, and the state after the poll.\<close>

definition stop_requested :: "args \<Rightarrow> 'a crawl_state_scheme \<Rightarrow> bool" where
  "stop_requested a s = (case stop_event a of None \<Rightarrow> False | Some is_set \<Rightarrow> is_set (polls s))"

definition polled :: "args \<Rightarrow> 'a crawl_state_scheme \<Rightarrow> 'a crawl_state_scheme" where
  "polled a s = (case stop_event a of None \<Rightarrow> s | Some is_set \<Rightarrow> s\<lparr>polls := Suc (polls s)\<rparr>)"

section \<open>Best-first search\<close>

text \<open>\<open>keyword_heuristic_score(page_content, keywords) if keywords else len(link)\<close>.\<close>

definition link_score :: "args \<Rightarrow> string \<Rightarrow> string \<Rightarrow> int" where
  "link_score a page_content link =
     (case keywords_arg a of
        None \<Rightarrow> int (length link)
      | Some ks \<Rightarrow> if ks = [] then int (length link) else keyword_heuristic_score page_content ks)"

text \<open>
  The loop over the anchors of the page at \<open>current_url\<close>. It returns the heap and
  either the categories of the page or the message of the exception that \<open>urljoin\<close>
  raised; the pushes made before the exception stay in the heap.
\<close>

fun bfs_links ::
  "world \<Rightarrow> args \<Rightarrow> string \<Rightarrow> int \<Rightarrow> string fset \<Rightarrow> string \<Rightarrow> (string \<times> string) list \<Rightarrow>
   item list \<Rightarrow> categories \<Rightarrow> item list \<times> (string + categories)" where
  "bfs_links w a current_url depth vis page_content [] q categories = (q, Inr categories)"
| "bfs_links w a current_url depth vis page_content ((href, tag_text) # tags) q categories =
     (case urljoin w current_url href of
        Inl e \<Rightarrow> (q, Inl e)
      | Inr joined \<Rightarrow>
          let link = rstrip ''/'' joined
          in if link |\<notin>| vis
             then bfs_links w a current_url depth vis page_content tags
                    (heappush q (link_score a page_content link, link, depth + 1))
                    (add_link categories tag_text link)
             else bfs_links w a current_url depth vis page_content tags q categories)"

text \<open>
  One run of the loop body, from \<open>heappop\<close> to the progress callback. The branch
  \<open>None\<close> is the \<open>IndexError\<close> of \<open>heappop\<close> on an empty heap, which the loop condition
  excludes.
\<close>

definition bfs_body :: "world \<Rightarrow> args \<Rightarrow> bfs_state \<Rightarrow> bfs_state" where
  "bfs_body w a s =
     (case heappop (queue s) of
        None \<Rightarrow> s
      | Some ((score, current_url, depth), rest) \<Rightarrow>
          let s1 = s\<lparr>queue := rest, iterations := Suc (iterations s)\<rparr>
          in if current_url |\<in>| visited s1 \<or> depth > max_depth a then s1
             else
               let s2 = s1\<lparr>fetch_log := fetch_log s1 @ [(current_url, depth)]\<rparr>
               in call_progress a
                    (case fetch_page w (iterations s) current_url of
                       Inl e \<Rightarrow> log_error current_url e s2
                     | Inr soup \<Rightarrow>
                         let s3 = s2\<lparr>visited := finsert current_url (visited s2)\<rparr>
                         in (case bfs_links w a current_url depth (visited s3) (get_text soup)
                                    (anchors soup) (queue s3) (extract_categories soup) of
                               (q, Inl e) \<Rightarrow> log_error current_url e (s3\<lparr>queue := q\<rparr>)
                             | (q, Inr categories) \<Rightarrow>
                                 s3\<lparr>queue := q,
                                    categorized_urls :=
                                      merge_categories categories (categorized_urls s3)\<rparr>)))"

definition bfs_init :: "args \<Rightarrow> bfs_state" where
  "bfs_init a =
     \<lparr>visited = {||}, categorized_urls = [], iterations = 0, polls = 0, fetch_log = [],
      error_log = [], progress_log = [], queue = [(0, start_url a, 0)]\<rparr>"

definition bfs_continue :: "args \<Rightarrow> bfs_state \<Rightarrow> bool" where
  "bfs_continue a s \<longleftrightarrow> queue s \<noteq> [] \<and> int (fcard (visited s)) < max_pages a"

text \<open>
  The \<open>while\<close> loop: the loop condition, then the poll of \<open>stop_event\<close> (\<open>break\<close> when
  it is set), then the body.
\<close>

function bfs_loop :: "world \<Rightarrow> args \<Rightarrow> bfs_state \<Rightarrow> bfs_state" where
  "bfs_loop w a s =
     (if bfs_continue a s
      then if stop_requested a s then polled a s
           else bfs_loop w a (bfs_body w a (polled a s))
      else s)"
  by pat_completeness auto

text \<open>
  \<open>bfs_final\<close> is the state in which the loop ends; \<open>bfs_crawl\<close> returns its
  \<open>categorized_urls\<close>.
\<close>

definition bfs_final :: "world \<Rightarrow> args \<Rightarrow> bfs_state" where
  "bfs_final w a = bfs_loop w a (bfs_init a)"

definition bfs_crawl :: "world \<Rightarrow> args \<Rightarrow> categories" where
  "bfs_crawl w a = categorized_urls (bfs_final w a)"

section \<open>Depth-first search\<close>

fun dfs_links ::
  "world \<Rightarrow> string \<Rightarrow> int \<Rightarrow> string fset \<Rightarrow> (string \<times> string) list \<Rightarrow>
   (string \<times> int) list \<Rightarrow> categories \<Rightarrow> (string \<times> int) list \<times> (string + categories)" where
  "dfs_links w current_url depth vis [] st categories = (st, Inr categories)"
| "dfs_links w current_url depth vis ((href, tag_text) # tags) st categories =
     (case urljoin w current_url href of
        Inl e \<Rightarrow> (st, Inl e)
      | Inr joined \<Rightarrow>
          let link = rstrip ''/'' joined
          in if link |\<notin>| vis
             then dfs_links w current_url depth vis tags (st @ [(link, depth + 1)])
                    (add_link categories tag_text link)
             else dfs_links w current_url depth vis tags st categories)"

definition dfs_body :: "world \<Rightarrow> args \<Rightarrow> dfs_state \<Rightarrow> dfs_state" where
  "dfs_body w a s =
     (case stack_pop (stack s) of
        None \<Rightarrow> s
      | Some ((current_url, depth), rest) \<Rightarrow>
          let s1 = s\<lparr>stack := rest, iterations := Suc (iterations s)\<rparr>
          in if current_url |\<in>| visited s1 \<or> depth > max_depth a then s1
             else
               let s2 = s1\<lparr>fetch_log := fetch_log s1 @ [(current_url, depth)]\<rparr>
               in call_progress a
                    (case fetch_page w (iterations s) current_url of
                       Inl e \<Rightarrow> log_error current_url e s2
                     | Inr soup \<Rightarrow>
                         let s3 = s2\<lparr>visited := finsert current_url (visited s2)\<rparr>
                         in (case dfs_links w current_url depth (visited s3) (anchors soup)
                                    (stack s3) (extract_categories soup) of
                               (st, Inl e) \<Rightarrow> log_error current_url e (s3\<lparr>stack := st\<rparr>)
                             | (st, Inr categories) \<Rightarrow>
                                 s3\<lparr>stack := st,
                                    categorized_urls :=
                                      merge_categories categories (categorized_urls s3)\<rparr>)))"

definition dfs_init :: "args \<Rightarrow> dfs_state" where
  "dfs_init a =
     \<lparr>visited = {||}, categorized_urls = [], iterations = 0, polls = 0, fetch_log = [],
      error_log = [], progress_log = [], stack = [(start_url a, 0)]\<rparr>"

definition dfs_continue :: "args \<Rightarrow> dfs_state \<Rightarrow> bool" where
  "dfs_continue a s \<longleftrightarrow> stack s \<noteq> [] \<and> int (fcard (visited s)) < max_pages a"

function dfs_loop :: "world \<Rightarrow> args \<Rightarrow> dfs_state \<Rightarrow> dfs_state" where
  "dfs_loop w a s =
     (if dfs_continue a s
      then if stop_requested a s then polled a s
           else dfs_loop w a (dfs_body w a (polled a s))
      else s)"
  by pat_completeness auto

definition dfs_final :: "world \<Rightarrow> args \<Rightarrow> dfs_state" where
  "dfs_final w a = dfs_loop w a (dfs_init a)"

definition dfs_crawl :: "world \<Rightarrow> args \<Rightarrow> categories" where
  "dfs_crawl w a = categorized_urls (dfs_final w a)"

section \<open>The states of a run\<close>

text \<open>
  \<open>bfs_steps w a s t\<close>: the loop started in state \<open>s\<close> evaluates its loop condition
  in state \<open>t\<close>, that is, \<open>t\<close> is \<open>s\<close> or the state after one of the loop bodies that
  the loop executes from \<open>s\<close>. The states of a run are those with
  \<open>bfs_steps w a (bfs_init a) t\<close>.
\<close>

inductive bfs_steps :: "world \<Rightarrow> args \<Rightarrow> bfs_state \<Rightarrow> bfs_state \<Rightarrow> bool" for w a s where
  bfs_steps_refl: "bfs_steps w a s s"
| bfs_steps_step:
    "bfs_steps w a s t \<Longrightarrow> bfs_continue a t \<Longrightarrow> \<not> stop_requested a t \<Longrightarrow>
     bfs_steps w a s (bfs_body w a (polled a t))"

inductive dfs_steps :: "world \<Rightarrow> args \<Rightarrow> dfs_state \<Rightarrow> dfs_state \<Rightarrow> bool" for w a s where
  dfs_steps_refl: "dfs_steps w a s s"
| dfs_steps_step:
    "dfs_steps w a s t \<Longrightarrow> dfs_continue a t \<Longrightarrow> \<not> stop_requested a t \<Longrightarrow>
     dfs_steps w a s (dfs_body w a (polled a t))"

section \<open>The priority of a link as the specification words it\<close>

text \<open>
  The case-insensitive occurrence count of a keyword in a text, the links that a page
  yields (each \<open>href\<close> resolved against the address of the page, trailing slashes
  stripped), and the priority of a discovered link: the sum of the counts over the
  keywords when keywords are supplied, the length of the link otherwise.
\<close>

definition ci_count :: "string \<Rightarrow> string \<Rightarrow> nat" where
  "ci_count text keyword = py_count (lower text) (lower keyword)"

definition keywords_supplied :: "args \<Rightarrow> bool" where
  "keywords_supplied a \<longleftrightarrow> (case keywords_arg a of None \<Rightarrow> False | Some ks \<Rightarrow> ks \<noteq> [])"

definition spec_priority :: "args \<Rightarrow> string \<Rightarrow> string \<Rightarrow> int" where
  "spec_priority a page_text link =
     (if keywords_supplied a
      then (\<Sum>keyword\<leftarrow>the (keywords_arg a). int (ci_count page_text keyword))
      else int (length link))"

definition discovered_links :: "world \<Rightarrow> string \<Rightarrow> (string \<times> string) list \<Rightarrow> string list" where
  "discovered_links w current_url tags =
     concat (map (\<lambda>(href, tag_text).
                    case urljoin w current_url href of
                      Inl e \<Rightarrow> []
                    | Inr joined \<Rightarrow> [rstrip ''/'' joined]) tags)"

section \<open>Properties of the states of a run\<close>

text \<open>
  Every address was fetched from an item whose depth is at most \<open>max_depth\<close>, and
  every visited address is one of the addresses fetched.
\<close>

definition depth_ok :: "args \<Rightarrow> 'a crawl_state_scheme \<Rightarrow> bool" where
  "depth_ok a s \<longleftrightarrow>
     (\<forall>(u, d) \<in> set (fetch_log s). d \<le> max_depth a) \<and>
     fset (visited s) \<subseteq> fst ` set (fetch_log s)"

text \<open>
  An address has no trailing slash when it is empty or its last character is not
  \<open>/\<close>.
\<close>

definition no_trailing_slash :: "string \<Rightarrow> bool" where
  "no_trailing_slash url \<longleftrightarrow> url = [] \<or> last url \<noteq> CHR ''/''"

text \<open>
  A result grows into another: every category of the first is a category of the second,
  with the same links at the front of its list.
\<close>

definition dict_grows :: "categories \<Rightarrow> categories \<Rightarrow> bool" where
  "dict_grows d d' \<longleftrightarrow> (\<forall>(k, vs) \<in> set d. \<exists>more. (k, vs @ more) \<in> set d')"

section \<open>Example worlds\<close>

text \<open>
  A chain of three pages: \<open>http://a\<close> links to \<open>http://b\<close>, which links to
  \<open>http://c\<close>, which has no links. Every \<open>href\<close> is absolute, so \<open>urljoin\<close> returns it.
\<close>

definition chain_world :: world where
  "chain_world =
     \<lparr>fetch_page = (\<lambda>n url.
        if url = ''http://a''
        then Inr \<lparr>headings = [], anchors = [(''http://b/'', ''to b'')], get_text = ''page a''\<rparr>
        else if url = ''http://b''
        then Inr \<lparr>headings = [], anchors = [(''http://c/'', ''to c'')], get_text = ''page b''\<rparr>
        else if url = ''http://c''
        then Inr \<lparr>headings = [], anchors = [], get_text = ''page c''\<rparr>
        else Inl ''HTTP Error 404: Not Found''),
      urljoin = (\<lambda>base href. Inr href)\<rparr>"

definition chain_args :: args where
  "chain_args =
     \<lparr>start_url = ''http://a'', max_pages = 5, max_depth = 1, keywords_arg = None,
      progress_callback = True, stop_event = None\<rparr>"

text \<open>The same chain with room for two pages and no effective depth limit.\<close>

definition two_pages_args :: args where
  "two_pages_args = chain_args\<lparr>max_pages := 2, max_depth := 5\<rparr>"

text \<open>A page with two links of the same length, \<open>http://b\<close> before \<open>http://a\<close>.\<close>

definition tie_world :: world where
  "tie_world =
     \<lparr>fetch_page = (\<lambda>n url.
        if url = ''http://s''
        then Inr \<lparr>headings = [], anchors = [(''http://b'', ''b''), (''http://a'', ''a'')],
                  get_text = ''b and a''\<rparr>
        else Inr \<lparr>headings = [], anchors = [], get_text = ''''\<rparr>),
      urljoin = (\<lambda>base href. Inr href)\<rparr>"

definition tie_args :: args where
  "tie_args =
     \<lparr>start_url = ''http://s'', max_pages = 3, max_depth = 3, keywords_arg = None,
      progress_callback = False, stop_event = None\<rparr>"

text \<open>
  A page whose text holds the keyword \<open>shop\<close> three times, in different cases, with
  two links; and a page with a link of 50 characters followed by a link of 5 characters.
\<close>

definition shop_world :: world where
  "shop_world =
     \<lparr>fetch_page = (\<lambda>n url.
        if url = ''http://s''
        then Inr \<lparr>headings = [], anchors = [(''http://s/x'', ''x''), (''http://s/yy/'', ''y'')],
                  get_text = ''Shop now: the shop for SHOPs''\<rparr>
        else Inl ''HTTP Error 404: Not Found''),
      urljoin = (\<lambda>base href. Inr href)\<rparr>"

definition shop_args :: args where
  "shop_args =
     \<lparr>start_url = ''http://s'', max_pages = 1, max_depth = 3, keywords_arg = Some [''shop''],
      progress_callback = False, stop_event = None\<rparr>"

definition length_world :: world where
  "length_world =
     \<lparr>fetch_page = (\<lambda>n url.
        if url = ''http://s''
        then Inr \<lparr>headings = [],
                  anchors = [(''http://s/a-very-long-link-of-fifty-characters/0123'', ''long''),
                             (''x:y/z'', ''short'')],
                  get_text = ''two links''\<rparr>
        else Inr \<lparr>headings = [], anchors = [], get_text = ''''\<rparr>),
      urljoin = (\<lambda>base href. Inr href)\<rparr>"

definition length_args :: args where
  "length_args =
     \<lparr>start_url = ''http://s'', max_pages = 3, max_depth = 3, keywords_arg = None,
      progress_callback = False, stop_event = None\<rparr>"

text \<open>
  A page that links to itself and twice to \<open>http://b\<close>, once with a trailing slash.
\<close>

definition dup_world :: world where
  "dup_world =
     \<lparr>fetch_page = (\<lambda>n url.
        if url = ''http://s''
        then Inr \<lparr>headings = [],
                  anchors = [(''http://s/'', ''home''), (''http://b'', ''b''), (''http://b/'', ''b'')],
                  get_text = ''home b b''\<rparr>
        else Inr \<lparr>headings = [], anchors = [], get_text = ''''\<rparr>),
      urljoin = (\<lambda>base href. Inr href)\<rparr>"

definition dup_args :: args where
  "dup_args =
     \<lparr>start_url = ''http://s'', max_pages = 5, max_depth = 3, keywords_arg = None,
      progress_callback = False, stop_event = None\<rparr>"

text \<open>
  A page with the heading \<open>Books\<close> and links to \<open>http://a\<close>, whose fetch fails, and
  to \<open>http://b\<close>. Both strategies pop \<open>http://a\<close> before \<open>http://b\<close>.
\<close>

definition flaky_world :: world where
  "flaky_world =
     \<lparr>fetch_page = (\<lambda>n url.
        if url = ''http://s''
        then Inr \<lparr>headings = ['' Books ''],
                  anchors = [(''http://b'', ''Books B''), (''http://a'', ''Books A'')],
                  get_text = ''books b and a''\<rparr>
        else if url = ''http://a'' then Inl ''HTTP Error 500: Internal Server Error''
        else Inr \<lparr>headings = [], anchors = [], get_text = ''''\<rparr>),
      urljoin = (\<lambda>base href. Inr href)\<rparr>"

definition flaky_args :: args where
  "flaky_args =
     \<lparr>start_url = ''http://s'', max_pages = 5, max_depth = 3, keywords_arg = None,
      progress_callback = True, stop_event = None\<rparr>"

text \<open>
  The same links, with \<open>http://b\<close> linking to \<open>http://a\<close>; the fetch of
  \<open>http://a\<close> fails in the iterations 0 and 1 and succeeds from iteration 2 on.
\<close>

definition retry_world :: world where
  "retry_world =
     \<lparr>fetch_page = (\<lambda>n url.
        if url = ''http://s''
        then Inr \<lparr>headings = [], anchors = [(''http://b'', ''b''), (''http://a'', ''a'')],
                  get_text = ''b and a''\<rparr>
        else if url = ''http://b''
        then Inr \<lparr>headings = [], anchors = [(''http://a'', ''a'')], get_text = ''a''\<rparr>
        else if url = ''http://a'' \<and> n < 2 then Inl ''HTTP Error 503: Service Unavailable''
        else Inr \<lparr>headings = [], anchors = [], get_text = ''''\<rparr>),
      urljoin = (\<lambda>base href. Inr href)\<rparr>"

text \<open>The chain of three pages, with a stop event that is set from the second poll on.\<close>

definition stop_args :: args where
  "stop_args =
     \<lparr>start_url = ''http://a'', max_pages = 5, max_depth = 5, keywords_arg = None,
      progress_callback = True, stop_event = Some (\<lambda>k. 1 \<le> k)\<rparr>"

text \<open>The page that links to itself and twice to \<open>http://b\<close>, with a progress callback.\<close>

definition dup_progress_args :: args where
  "dup_progress_args = dup_args\<lparr>progress_callback := True\<rparr>"

text \<open>
  A world in which the empty address cannot be fetched: \<open>urlopen('')\<close> raises
  \<open>ValueError\<close> with the message \<open>unknown url type: ''\<close>. The arguments of a crawl
  with an empty seed, and of a crawl with a page limit of 0.
\<close>

definition empty_seed_world :: world where
  "empty_seed_world =
     \<lparr>fetch_page = (\<lambda>n url.
        if url = [] then Inl (''unknown url type: '' @ [CHR 0x27, CHR 0x27])
        else Inr \<lparr>headings = [], anchors = [], get_text = ''''\<rparr>),
      urljoin = (\<lambda>base href. Inr href)\<rparr>"

definition empty_seed_args :: args where
  "empty_seed_args =
     \<lparr>start_url = [], max_pages = 1, max_depth = 0, keywords_arg = None,
      progress_callback = False, stop_event = None\<rparr>"

definition zero_pages_args :: args where
  "zero_pages_args = chain_args\<lparr>max_pages := 0\<rparr>"

text \<open>
  A site whose home page links to itself as \<open>http://a/\<close>; the page is served under
  \<open>http://a/\<close> and under \<open>http://a\<close>. The crawl starts at \<open>http://a/\<close>.
\<close>

definition slash_world :: world where
  "slash_world =
     \<lparr>fetch_page = (\<lambda>n url.
        if url = ''http://a/'' \<or> url = ''http://a''
        then Inr \<lparr>headings = [], anchors = [(''http://a/'', ''home'')], get_text = ''home''\<rparr>
        else Inl ''HTTP Error 404: Not Found''),
      urljoin = (\<lambda>base href. Inr href)\<rparr>"

definition slash_args :: args where
  "slash_args =
     \<lparr>start_url = ''http://a/'', max_pages = 5, max_depth = 3, keywords_arg = None,
      progress_callback = False, stop_event = None\<rparr>"

text \<open>
  A site on which \<open>http://xxxx\<close> is reached over three links (through \<open>http://a\<close> and
  \<open>http://c\<close>) and over two links (through \<open>http://bb\<close>). Both strategies process
  \<open>http://a\<close> and \<open>http://c\<close> before \<open>http://bb\<close>.
\<close>

definition detour_world :: world where
  "detour_world =
     \<lparr>fetch_page = (\<lambda>n url.
        if url = ''http://s''
        then Inr \<lparr>headings = [], anchors = [(''http://bb'', ''bb''), (''http://a'', ''a'')],
                  get_text = ''start''\<rparr>
        else if url = ''http://a''
        then Inr \<lparr>headings = [], anchors = [(''http://c'', ''c'')], get_text = ''a''\<rparr>
        else if url = ''http://c''
        then Inr \<lparr>headings = [], anchors = [(''http://xxxx'', ''x'')], get_text = ''c''\<rparr>
        else if url = ''http://bb''
        then Inr \<lparr>headings = [], anchors = [(''http://xxxx'', ''x'')], get_text = ''bb''\<rparr>
        else Inr \<lparr>headings = [], anchors = [], get_text = ''''\<rparr>),
      urljoin = (\<lambda>base href. Inr href)\<rparr>"

definition detour_args :: args where
  "detour_args =
     \<lparr>start_url = ''http://s'', max_pages = 10, max_depth = 2, keywords_arg = None,
      progress_callback = False, stop_event = None\<rparr>"

text \<open>The states of the two runs on this site after three loop bodies.\<close>

definition detour_bfs3 :: bfs_state where
  "detour_bfs3 =
     bfs_body detour_world detour_args
       (bfs_body detour_world detour_args
          (bfs_body detour_world detour_args (bfs_init detour_args)))"

definition detour_dfs3 :: dfs_state where
  "detour_dfs3 =
     dfs_body detour_world detour_args
       (dfs_body detour_world detour_args
          (dfs_body detour_world detour_args (dfs_init detour_args)))"

section \<open>Termination of the two loops\<close>

lemma min_list_in: "q \<noteq> [] \<Longrightarrow> min_list q \<in> set (q :: 'a::linorder list)"
  by (simp add: min_list_Min)

lemma heappop_Some:
  assumes "heappop q = Some (x, rest)"
  shows "x \<in> set q" and "rest = remove1 x q" and "Suc (length rest) = length q"
    and "x = min_list q"
proof -
  from assms have ne: "q \<noteq> []" and x: "x = min_list q" and r: "rest = remove1 x q"
    by (auto simp: heappop_def Let_def split: if_splits)
  show "x \<in> set q" using ne x min_list_in by blast
  then show "Suc (length rest) = length q"
    using r ne by (simp add: length_remove1)
  show "rest = remove1 x q" by (rule r)
  show "x = min_list q" by (rule x)
qed

lemma heappop_None: "heappop q = None \<longleftrightarrow> q = []"
  by (simp add: heappop_def Let_def)

lemma stack_pop_Some:
  assumes "stack_pop st = Some (x, rest)"
  shows "st = rest @ [x]"
  using assms by (auto simp: stack_pop_def split: if_splits)

lemma stack_pop_None: "stack_pop st = None \<longleftrightarrow> st = []"
  by (simp add: stack_pop_def)

lemma visited_log_error [simp]: "visited (log_error u e s) = visited s"
  by (simp add: log_error_def)

lemma visited_call_progress [simp]: "visited (call_progress a s) = visited s"
  by (simp add: call_progress_def)

lemma visited_polled [simp]: "visited (polled a s) = visited s"
  by (simp add: polled_def split: option.splits)

lemma queue_log_error [simp]: "queue (log_error u e s) = queue s"
  by (simp add: log_error_def)

lemma queue_call_progress [simp]: "queue (call_progress a s) = queue s"
  by (simp add: call_progress_def)

lemma queue_polled [simp]: "queue (polled a s) = queue s"
  by (simp add: polled_def split: option.splits)

lemma stack_log_error [simp]: "stack (log_error u e s) = stack s"
  by (simp add: log_error_def)

lemma stack_call_progress [simp]: "stack (call_progress a s) = stack s"
  by (simp add: call_progress_def)

lemma stack_polled [simp]: "stack (polled a s) = stack s"
  by (simp add: polled_def split: option.splits)

text \<open>The three ways through the body of the best-first loop.\<close>

lemma bfs_body_skip:
  assumes "heappop (queue s) = Some ((sc, u, d), rest)"
    and "u |\<in>| visited s \<or> d > max_depth a"
  shows "bfs_body w a s = s\<lparr>queue := rest, iterations := Suc (iterations s)\<rparr>"
  using assms by (auto simp: bfs_body_def Let_def)

lemma bfs_body_fail:
  assumes "heappop (queue s) = Some ((sc, u, d), rest)"
    and "u |\<notin>| visited s" and "d \<le> max_depth a"
    and "fetch_page w (iterations s) u = Inl e"
  shows "bfs_body w a s =
         call_progress a (log_error u e
           (s\<lparr>queue := rest, iterations := Suc (iterations s),
              fetch_log := fetch_log s @ [(u, d)]\<rparr>))"
  using assms by (simp add: bfs_body_def Let_def)

lemma bfs_body_ok:
  assumes "heappop (queue s) = Some ((sc, u, d), rest)"
    and "u |\<notin>| visited s" and "d \<le> max_depth a"
    and "fetch_page w (iterations s) u = Inr soup"
    and "bfs_links w a u d (finsert u (visited s)) (get_text soup) (anchors soup) rest
           (extract_categories soup) = (q, r)"
  shows "bfs_body w a s =
         call_progress a
           (let s3 = s\<lparr>queue := rest, iterations := Suc (iterations s),
                       fetch_log := fetch_log s @ [(u, d)], visited := finsert u (visited s)\<rparr>
            in case r of
                 Inl e \<Rightarrow> log_error u e (s3\<lparr>queue := q\<rparr>)
               | Inr categories \<Rightarrow>
                   s3\<lparr>queue := q,
                      categorized_urls := merge_categories categories (categorized_urls s)\<rparr>)"
  using assms by (simp add: bfs_body_def Let_def split: sum.splits)

text \<open>The same for the depth-first loop.\<close>

lemma dfs_body_skip:
  assumes "stack_pop (stack s) = Some ((u, d), rest)"
    and "u |\<in>| visited s \<or> d > max_depth a"
  shows "dfs_body w a s = s\<lparr>stack := rest, iterations := Suc (iterations s)\<rparr>"
  using assms by (auto simp: dfs_body_def Let_def)

lemma dfs_body_fail:
  assumes "stack_pop (stack s) = Some ((u, d), rest)"
    and "u |\<notin>| visited s" and "d \<le> max_depth a"
    and "fetch_page w (iterations s) u = Inl e"
  shows "dfs_body w a s =
         call_progress a (log_error u e
           (s\<lparr>stack := rest, iterations := Suc (iterations s),
              fetch_log := fetch_log s @ [(u, d)]\<rparr>))"
  using assms by (simp add: dfs_body_def Let_def)

lemma dfs_body_ok:
  assumes "stack_pop (stack s) = Some ((u, d), rest)"
    and "u |\<notin>| visited s" and "d \<le> max_depth a"
    and "fetch_page w (iterations s) u = Inr soup"
    and "dfs_links w u d (finsert u (visited s)) (anchors soup) rest
           (extract_categories soup) = (st, r)"
  shows "dfs_body w a s =
         call_progress a
           (let s3 = s\<lparr>stack := rest, iterations := Suc (iterations s),
                       fetch_log := fetch_log s @ [(u, d)], visited := finsert u (visited s)\<rparr>
            in case r of
                 Inl e \<Rightarrow> log_error u e (s3\<lparr>stack := st\<rparr>)
               | Inr categories \<Rightarrow>
                   s3\<lparr>stack := st,
                      categorized_urls := merge_categories categories (categorized_urls s)\<rparr>)"
  using assms by (simp add: dfs_body_def Let_def split: sum.splits)

lemma bfs_body_empty: "queue s = [] \<Longrightarrow> bfs_body w a s = s"
  by (simp add: bfs_body_def heappop_def)

lemma dfs_body_empty: "stack s = [] \<Longrightarrow> dfs_body w a s = s"
  by (simp add: dfs_body_def stack_pop_def)

text \<open>A case analysis of one loop body on a non-empty frontier.\<close>

lemma bfs_body_cases [consumes 1, case_names skip fail ok]:
  assumes "queue s \<noteq> []"
  obtains
    (skip) sc u d rest where "heappop (queue s) = Some ((sc, u, d), rest)"
      and "u |\<in>| visited s \<or> d > max_depth a"
      and "bfs_body w a s = s\<lparr>queue := rest, iterations := Suc (iterations s)\<rparr>"
  | (fail) sc u d rest e where "heappop (queue s) = Some ((sc, u, d), rest)"
      and "u |\<notin>| visited s" and "d \<le> max_depth a"
      and "fetch_page w (iterations s) u = Inl e"
      and "bfs_body w a s =
           call_progress a (log_error u e
             (s\<lparr>queue := rest, iterations := Suc (iterations s),
                fetch_log := fetch_log s @ [(u, d)]\<rparr>))"
  | (ok) sc u d rest soup q r where "heappop (queue s) = Some ((sc, u, d), rest)"
      and "u |\<notin>| visited s" and "d \<le> max_depth a"
      and "fetch_page w (iterations s) u = Inr soup"
      and "bfs_links w a u d (finsert u (visited s)) (get_text soup) (anchors soup) rest
             (extract_categories soup) = (q, r)"
      and "bfs_body w a s =
           call_progress a
             (let s3 = s\<lparr>queue := rest, iterations := Suc (iterations s),
                         fetch_log := fetch_log s @ [(u, d)],
                         visited := finsert u (visited s)\<rparr>
              in case r of
                   Inl e \<Rightarrow> log_error u e (s3\<lparr>queue := q\<rparr>)
                 | Inr categories \<Rightarrow>
                     s3\<lparr>queue := q,
                        categorized_urls := merge_categories categories (categorized_urls s)\<rparr>)"
proof -
  from assms obtain p where Some: "heappop (queue s) = Some p"
    by (cases "heappop (queue s)") (auto simp: heappop_None)
  obtain sc u d rest where p: "p = ((sc, u, d), rest)" by (cases p) auto
  show thesis
  proof (cases "u |\<in>| visited s \<or> d > max_depth a")
    case True
    then show thesis using skip bfs_body_skip[of s sc u d rest a w] Some p by blast
  next
    case False
    then have nv: "u |\<notin>| visited s" and dp: "d \<le> max_depth a" by auto
    show thesis
    proof (cases "fetch_page w (iterations s) u")
      case (Inl e)
      then show thesis using fail bfs_body_fail[of s sc u d rest a w e] Some p nv dp by blast
    next
      case (Inr soup)
      obtain q r where l: "bfs_links w a u d (finsert u (visited s)) (get_text soup)
          (anchors soup) rest (extract_categories soup) = (q, r)" by fastforce
      show thesis
        using ok[OF _ nv dp Inr l] bfs_body_ok[OF _ nv dp Inr l] Some p by blast
    qed
  qed
qed

lemma dfs_body_cases [consumes 1, case_names skip fail ok]:
  assumes "stack s \<noteq> []"
  obtains
    (skip) u d rest where "stack_pop (stack s) = Some ((u, d), rest)"
      and "u |\<in>| visited s \<or> d > max_depth a"
      and "dfs_body w a s = s\<lparr>stack := rest, iterations := Suc (iterations s)\<rparr>"
  | (fail) u d rest e where "stack_pop (stack s) = Some ((u, d), rest)"
      and "u |\<notin>| visited s" and "d \<le> max_depth a"
      and "fetch_page w (iterations s) u = Inl e"
      and "dfs_body w a s =
           call_progress a (log_error u e
             (s\<lparr>stack := rest, iterations := Suc (iterations s),
                fetch_log := fetch_log s @ [(u, d)]\<rparr>))"
  | (ok) u d rest soup st r where "stack_pop (stack s) = Some ((u, d), rest)"
      and "u |\<notin>| visited s" and "d \<le> max_depth a"
      and "fetch_page w (iterations s) u = Inr soup"
      and "dfs_links w u d (finsert u (visited s)) (anchors soup) rest
             (extract_categories soup) = (st, r)"
      and "dfs_body w a s =
           call_progress a
             (let s3 = s\<lparr>stack := rest, iterations := Suc (iterations s),
                         fetch_log := fetch_log s @ [(u, d)],
                         visited := finsert u (visited s)\<rparr>
              in case r of
                   Inl e \<Rightarrow> log_error u e (s3\<lparr>stack := st\<rparr>)
                 | Inr categories \<Rightarrow>
                     s3\<lparr>stack := st,
                        categorized_urls := merge_categories categories (categorized_urls s)\<rparr>)"
proof -
  from assms obtain p where Some: "stack_pop (stack s) = Some p"
    by (cases "stack_pop (stack s)") (auto simp: stack_pop_None)
  obtain u d rest where p: "p = ((u, d), rest)" by (cases p) auto
  show thesis
  proof (cases "u |\<in>| visited s \<or> d > max_depth a")
    case True
    then show thesis using skip dfs_body_skip[of s u d rest a w] Some p by blast
  next
    case False
    then have nv: "u |\<notin>| visited s" and dp: "d \<le> max_depth a" by auto
    show thesis
    proof (cases "fetch_page w (iterations s) u")
      case (Inl e)
      then show thesis using fail dfs_body_fail[of s u d rest a w e] Some p nv dp by blast
    next
      case (Inr soup)
      obtain st r where l: "dfs_links w u d (finsert u (visited s)) (anchors soup) rest
          (extract_categories soup) = (st, r)" by fastforce
      show thesis
        using ok[OF _ nv dp Inr l] dfs_body_ok[OF _ nv dp Inr l] Some p by blast
    qed
  qed
qed

text \<open>A body adds at most one address to \<open>visited\<close>, and one that was not in it.\<close>

lemma bfs_body_visited:
  "visited (bfs_body w a s) = visited s \<or>
   (\<exists>u. u |\<notin>| visited s \<and> visited (bfs_body w a s) = finsert u (visited s))"
proof (cases "queue s = []")
  case True
  then show ?thesis by (simp add: bfs_body_empty)
next
  case False
  then show ?thesis
    by (cases rule: bfs_body_cases[where w = w and a = a])
       (auto simp: Let_def split: sum.splits)
qed

lemma dfs_body_visited:
  "visited (dfs_body w a s) = visited s \<or>
   (\<exists>u. u |\<notin>| visited s \<and> visited (dfs_body w a s) = finsert u (visited s))"
proof (cases "stack s = []")
  case True
  then show ?thesis by (simp add: dfs_body_empty)
next
  case False
  then show ?thesis
    by (cases rule: dfs_body_cases[where w = w and a = a])
       (auto simp: Let_def split: sum.splits)
qed

text \<open>A body that leaves \<open>visited\<close> as it is makes the frontier shorter.\<close>

lemma bfs_body_queue:
  assumes "queue s \<noteq> []" and "visited (bfs_body w a s) = visited s"
  shows "length (queue (bfs_body w a s)) < length (queue s)"
  using assms(1)
proof (cases rule: bfs_body_cases[where w = w and a = a])
  case (skip sc u d rest)
  then show ?thesis using heappop_Some(3) by fastforce
next
  case (fail sc u d rest e)
  then show ?thesis using heappop_Some(3) by fastforce
next
  case (ok sc u d rest soup q r)
  then have "visited (bfs_body w a s) = finsert u (visited s)"
    by (auto simp: Let_def split: sum.splits)
  with assms(2) ok(2) show ?thesis by auto
qed

lemma dfs_body_stack:
  assumes "stack s \<noteq> []" and "visited (dfs_body w a s) = visited s"
  shows "length (stack (dfs_body w a s)) < length (stack s)"
  using assms(1)
proof (cases rule: dfs_body_cases[where w = w and a = a])
  case (skip u d rest)
  then show ?thesis using stack_pop_Some by fastforce
next
  case (fail u d rest e)
  then show ?thesis using stack_pop_Some by fastforce
next
  case (ok u d rest soup st r)
  then have "visited (dfs_body w a s) = finsert u (visited s)"
    by (auto simp: Let_def split: sum.splits)
  with assms(2) ok(2) show ?thesis by auto
qed

text \<open>
  Both loops end: a body either adds an address to \<open>visited\<close>, whose size is bounded
  by \<open>max_pages\<close> while the loop runs, or makes the frontier shorter.
\<close>

termination bfs_loop
proof (relation "measures [\<lambda>(w, a, s). nat (max_pages a - int (fcard (visited s))),
                           \<lambda>(w, a, s). length (queue s)]", goal_cases)
  case 1
  show ?case by simp
next
  case (2 w a s)
  let ?s = "polled a s"
  from 2 have c: "queue ?s \<noteq> []" "int (fcard (visited ?s)) < max_pages a"
    by (simp_all add: bfs_continue_def)
  from bfs_body_visited[of w a ?s] show ?case
  proof
    assume eq: "visited (bfs_body w a ?s) = visited ?s"
    with bfs_body_queue[OF c(1) eq] show ?thesis by simp
  next
    assume "\<exists>u. u |\<notin>| visited ?s \<and> visited (bfs_body w a ?s) = finsert u (visited ?s)"
    then obtain u where "u |\<notin>| visited ?s"
      and "visited (bfs_body w a ?s) = finsert u (visited ?s)"
      by blast
    then have "fcard (visited (bfs_body w a ?s)) = Suc (fcard (visited s))"
      by (simp add: fcard_finsert_disjoint)
    with c(2) show ?thesis by simp
  qed
qed

termination dfs_loop
proof (relation "measures [\<lambda>(w, a, s). nat (max_pages a - int (fcard (visited s))),
                           \<lambda>(w, a, s). length (stack s)]", goal_cases)
  case 1
  show ?case by simp
next
  case (2 w a s)
  let ?s = "polled a s"
  from 2 have c: "stack ?s \<noteq> []" "int (fcard (visited ?s)) < max_pages a"
    by (simp_all add: dfs_continue_def)
  from dfs_body_visited[of w a ?s] show ?case
  proof
    assume eq: "visited (dfs_body w a ?s) = visited ?s"
    with dfs_body_stack[OF c(1) eq] show ?thesis by simp
  next
    assume "\<exists>u. u |\<notin>| visited ?s \<and> visited (dfs_body w a ?s) = finsert u (visited ?s)"
    then obtain u where "u |\<notin>| visited ?s"
      and "visited (dfs_body w a ?s) = finsert u (visited ?s)"
      by blast
    then have "fcard (visited (dfs_body w a ?s)) = Suc (fcard (visited s))"
      by (simp add: fcard_finsert_disjoint)
    with c(2) show ?thesis by simp
  qed
qed

declare bfs_loop.simps [simp del]
declare dfs_loop.simps [simp del]

text \<open>
  The state in which a loop ends: a state of the loop in which the loop condition
  fails, or, after a \<open>break\<close>, a state of the loop with the poll counted.
\<close>

lemma bfs_loop_end:
  assumes "bfs_steps w a s0 s"
  shows "\<exists>t. bfs_steps w a s0 t \<and>
             (\<not> bfs_continue a t \<and> bfs_loop w a s = t \<or>
              bfs_continue a t \<and> stop_requested a t \<and> bfs_loop w a s = polled a t)"
  using assms
proof (induction w a s rule: bfs_loop.induct)
  case (1 w a s)
  show ?case
  proof (cases "bfs_continue a s")
    case False
    then show ?thesis using "1.prems" by (auto simp: bfs_loop.simps[of w a s])
  next
    case True
    show ?thesis
    proof (cases "stop_requested a s")
      case True
      then show ?thesis
        using "1.prems" \<open>bfs_continue a s\<close> by (auto simp: bfs_loop.simps[of w a s])
    next
      case False
      then have "bfs_steps w a s0 (bfs_body w a (polled a s))"
        using "1.prems" True bfs_steps_step by blast
      from "1.IH"[OF True False this] show ?thesis
        using True False by (simp add: bfs_loop.simps[of w a s])
    qed
  qed
qed

lemma dfs_loop_end:
  assumes "dfs_steps w a s0 s"
  shows "\<exists>t. dfs_steps w a s0 t \<and>
             (\<not> dfs_continue a t \<and> dfs_loop w a s = t \<or>
              dfs_continue a t \<and> stop_requested a t \<and> dfs_loop w a s = polled a t)"
  using assms
proof (induction w a s rule: dfs_loop.induct)
  case (1 w a s)
  show ?case
  proof (cases "dfs_continue a s")
    case False
    then show ?thesis using "1.prems" by (auto simp: dfs_loop.simps[of w a s])
  next
    case True
    show ?thesis
    proof (cases "stop_requested a s")
      case True
      then show ?thesis
        using "1.prems" \<open>dfs_continue a s\<close> by (auto simp: dfs_loop.simps[of w a s])
    next
      case False
      then have "dfs_steps w a s0 (dfs_body w a (polled a s))"
        using "1.prems" True dfs_steps_step by blast
      from "1.IH"[OF True False this] show ?thesis
        using True False by (simp add: dfs_loop.simps[of w a s])
    qed
  qed
qed

text \<open>A loop started in any of its states ends as the loop started at the beginning.\<close>

lemma bfs_loop_steps: "bfs_steps w a s0 s \<Longrightarrow> bfs_loop w a s = bfs_loop w a s0"
proof (induction rule: bfs_steps.induct)
  case bfs_steps_refl
  show ?case by simp
next
  case (bfs_steps_step t)
  then show ?case by (simp add: bfs_loop.simps[of w a t])
qed

lemma dfs_loop_steps: "dfs_steps w a s0 s \<Longrightarrow> dfs_loop w a s = dfs_loop w a s0"
proof (induction rule: dfs_steps.induct)
  case dfs_steps_refl
  show ?case by simp
next
  case (dfs_steps_step t)
  then show ?case by (simp add: dfs_loop.simps[of w a t])
qed

lemma bfs_final_end:
  "\<exists>t. bfs_steps w a (bfs_init a) t \<and>
       (\<not> bfs_continue a t \<and> bfs_final w a = t \<or>
        bfs_continue a t \<and> stop_requested a t \<and> bfs_final w a = polled a t)"
  unfolding bfs_final_def by (rule bfs_loop_end[OF bfs_steps_refl])

lemma dfs_final_end:
  "\<exists>t. dfs_steps w a (dfs_init a) t \<and>
       (\<not> dfs_continue a t \<and> dfs_final w a = t \<or>
        dfs_continue a t \<and> stop_requested a t \<and> dfs_final w a = polled a t)"
  unfolding dfs_final_def by (rule dfs_loop_end[OF dfs_steps_refl])

section \<open>The page limit\<close>

lemma bfs_steps_max_pages:
  assumes "bfs_steps w a s0 s" and "int (fcard (visited s0)) \<le> max_pages a"
  shows "int (fcard (visited s)) \<le> max_pages a"
  using assms
proof (induction rule: bfs_steps.induct)
  case bfs_steps_refl
  then show ?case by simp
next
  case (bfs_steps_step t)
  then have lt: "int (fcard (visited (polled a t))) < max_pages a"
    by (simp add: bfs_continue_def)
  from bfs_body_visited[of w a "polled a t"] show ?case
  proof
    assume "visited (bfs_body w a (polled a t)) = visited (polled a t)"
    with lt show ?thesis by simp
  next
    assume "\<exists>u. u |\<notin>| visited (polled a t) \<and>
                visited (bfs_body w a (polled a t)) = finsert u (visited (polled a t))"
    then obtain u where "u |\<notin>| visited (polled a t)"
      and "visited (bfs_body w a (polled a t)) = finsert u (visited (polled a t))"
      by blast
    then have "fcard (visited (bfs_body w a (polled a t))) = Suc (fcard (visited (polled a t)))"
      by (simp add: fcard_finsert_disjoint)
    with lt show ?thesis by simp
  qed
qed

lemma dfs_steps_max_pages:
  assumes "dfs_steps w a s0 s" and "int (fcard (visited s0)) \<le> max_pages a"
  shows "int (fcard (visited s)) \<le> max_pages a"
  using assms
proof (induction rule: dfs_steps.induct)
  case dfs_steps_refl
  then show ?case by simp
next
  case (dfs_steps_step t)
  then have lt: "int (fcard (visited (polled a t))) < max_pages a"
    by (simp add: dfs_continue_def)
  from dfs_body_visited[of w a "polled a t"] show ?case
  proof
    assume "visited (dfs_body w a (polled a t)) = visited (polled a t)"
    with lt show ?thesis by simp
  next
    assume "\<exists>u. u |\<notin>| visited (polled a t) \<and>
                visited (dfs_body w a (polled a t)) = finsert u (visited (polled a t))"
    then obtain u where "u |\<notin>| visited (polled a t)"
      and "visited (dfs_body w a (polled a t)) = finsert u (visited (polled a t))"
      by blast
    then have "fcard (visited (dfs_body w a (polled a t))) = Suc (fcard (visited (polled a t)))"
      by (simp add: fcard_finsert_disjoint)
    with lt show ?thesis by simp
  qed
qed

lemma visited_bfs_init [simp]: "visited (bfs_init a) = {||}"
  by (simp add: bfs_init_def)

lemma visited_dfs_init [simp]: "visited (dfs_init a) = {||}"
  by (simp add: dfs_init_def)

text \<open>
  Claim C1. In every run of \<open>bfs_crawl\<close> and of \<open>dfs_crawl\<close> with a page limit that is
  not negative, whatever the pages fetched yield and whenever the stop event is set,
  the number of visited addresses is at most \<open>max_pages\<close> in every state of the run,
  and in the state in which the run ends.
\<close>

theorem visited_within_max_pages:
  assumes "0 \<le> max_pages a"
  shows "(bfs_steps w a (bfs_init a) s \<longrightarrow> int (fcard (visited s)) \<le> max_pages a) \<and>
         (dfs_steps w a (dfs_init a) s' \<longrightarrow> int (fcard (visited s')) \<le> max_pages a) \<and>
         int (fcard (visited (bfs_final w a))) \<le> max_pages a \<and>
         int (fcard (visited (dfs_final w a))) \<le> max_pages a"
proof -
  have b: "int (fcard (visited t)) \<le> max_pages a" if "bfs_steps w a (bfs_init a) t" for t
    using bfs_steps_max_pages[OF that] assms by (simp add: fcard_fempty)
  have d: "int (fcard (visited t)) \<le> max_pages a" if "dfs_steps w a (dfs_init a) t" for t
    using dfs_steps_max_pages[OF that] assms by (simp add: fcard_fempty)
  from bfs_final_end[of w a] obtain t where
    "bfs_steps w a (bfs_init a) t" and "visited (bfs_final w a) = visited t"
    by auto
  with b have fb: "int (fcard (visited (bfs_final w a))) \<le> max_pages a" by simp
  from dfs_final_end[of w a] obtain t where
    "dfs_steps w a (dfs_init a) t" and "visited (dfs_final w a) = visited t"
    by auto
  with d have fd: "int (fcard (visited (dfs_final w a))) \<le> max_pages a" by simp
  show ?thesis using b d fb fd by blast
qed

theorem visited_within_max_pages_witness:
  "0 \<le> max_pages two_pages_args \<and>
   max_pages two_pages_args = 2 \<and>
   fcard (visited (bfs_final chain_world two_pages_args)) = 2 \<and>
   fcard (visited (dfs_final chain_world two_pages_args)) = 2 \<and>
   int (fcard (visited (bfs_final chain_world two_pages_args))) \<le> max_pages two_pages_args \<and>
   int (fcard (visited (dfs_final chain_world two_pages_args))) \<le> max_pages two_pages_args"
proof -
  have h: "0 \<le> max_pages two_pages_args"
    by (simp add: two_pages_args_def chain_args_def)
  have m: "max_pages two_pages_args = 2"
    by (simp add: two_pages_args_def chain_args_def)
  have b: "fcard (visited (bfs_final chain_world two_pages_args)) = 2"
    by code_simp
  have d: "fcard (visited (dfs_final chain_world two_pages_args)) = 2"
    by code_simp
  from visited_within_max_pages[OF h, of chain_world] h m b d show ?thesis
    by blast
qed

section \<open>What one loop body does\<close>

lemma bfs_body_effect:
  assumes "queue s \<noteq> []"
  shows "\<exists>sc u d rest. heappop (queue s) = Some ((sc, u, d), rest) \<and>
           iterations (bfs_body w a s) = Suc (iterations s) \<and>
           polls (bfs_body w a s) = polls s \<and>
           ((u |\<in>| visited s \<or> d > max_depth a) \<and>
              bfs_body w a s = s\<lparr>queue := rest, iterations := Suc (iterations s)\<rparr>
            \<or> u |\<notin>| visited s \<and> d \<le> max_depth a \<and>
              fetch_log (bfs_body w a s) = fetch_log s @ [(u, d)] \<and>
              (visited (bfs_body w a s) = visited s \<or>
               visited (bfs_body w a s) = finsert u (visited s)) \<and>
              progress_log (bfs_body w a s) =
                (if progress_callback a
                 then progress_log s @ [(fcard (visited (bfs_body w a s)), max_pages a)]
                 else progress_log s))"
  using assms
proof (cases rule: bfs_body_cases[where w = w and a = a])
  case (skip sc u d rest)
  then show ?thesis by auto
next
  case (fail sc u d rest e)
  then show ?thesis by (auto simp: log_error_def call_progress_def)
next
  case (ok sc u d rest soup q r)
  then show ?thesis
    by (cases r) (auto simp: log_error_def call_progress_def Let_def)
qed

lemma dfs_body_effect:
  assumes "stack s \<noteq> []"
  shows "\<exists>u d rest. stack_pop (stack s) = Some ((u, d), rest) \<and>
           iterations (dfs_body w a s) = Suc (iterations s) \<and>
           polls (dfs_body w a s) = polls s \<and>
           ((u |\<in>| visited s \<or> d > max_depth a) \<and>
              dfs_body w a s = s\<lparr>stack := rest, iterations := Suc (iterations s)\<rparr>
            \<or> u |\<notin>| visited s \<and> d \<le> max_depth a \<and>
              fetch_log (dfs_body w a s) = fetch_log s @ [(u, d)] \<and>
              (visited (dfs_body w a s) = visited s \<or>
               visited (dfs_body w a s) = finsert u (visited s)) \<and>
              progress_log (dfs_body w a s) =
                (if progress_callback a
                 then progress_log s @ [(fcard (visited (dfs_body w a s)), max_pages a)]
                 else progress_log s))"
  using assms
proof (cases rule: dfs_body_cases[where w = w and a = a])
  case (skip u d rest)
  then show ?thesis by auto
next
  case (fail u d rest e)
  then show ?thesis by (auto simp: log_error_def call_progress_def)
next
  case (ok u d rest soup st r)
  then show ?thesis
    by (cases r) (auto simp: log_error_def call_progress_def Let_def)
qed

section \<open>The depth limit\<close>

lemma fetch_log_polled [simp]: "fetch_log (polled a s) = fetch_log s"
  by (simp add: polled_def split: option.splits)

lemma bfs_steps_depth:
  assumes "bfs_steps w a s0 s"
    and "\<forall>(u, d) \<in> set (fetch_log s0). d \<le> max_depth a"
    and "fset (visited s0) \<subseteq> fst ` set (fetch_log s0)"
  shows "(\<forall>(u, d) \<in> set (fetch_log s). d \<le> max_depth a) \<and>
         fset (visited s) \<subseteq> fst ` set (fetch_log s)"
  using assms
proof (induction rule: bfs_steps.induct)
  case bfs_steps_refl
  then show ?case by simp
next
  case (bfs_steps_step t)
  then have ne: "queue (polled a t) \<noteq> []" by (simp add: bfs_continue_def)
  from bfs_body_effect[OF ne, of w a] bfs_steps_step.IH bfs_steps_step.prems
  show ?case by (auto simp: rev_image_eqI)
qed


lemma dfs_steps_depth:
  assumes "dfs_steps w a s0 s"
    and "\<forall>(u, d) \<in> set (fetch_log s0). d \<le> max_depth a"
    and "fset (visited s0) \<subseteq> fst ` set (fetch_log s0)"
  shows "(\<forall>(u, d) \<in> set (fetch_log s). d \<le> max_depth a) \<and>
         fset (visited s) \<subseteq> fst ` set (fetch_log s)"
  using assms
proof (induction rule: dfs_steps.induct)
  case dfs_steps_refl
  then show ?case by simp
next
  case (dfs_steps_step t)
  then have ne: "stack (polled a t) \<noteq> []" by (simp add: dfs_continue_def)
  from dfs_body_effect[OF ne, of w a] dfs_steps_step.IH dfs_steps_step.prems
  show ?case by (auto simp: rev_image_eqI)
qed

lemma fetch_log_bfs_init [simp]: "fetch_log (bfs_init a) = []"
  by (simp add: bfs_init_def)

lemma fetch_log_dfs_init [simp]: "fetch_log (dfs_init a) = []"
  by (simp add: dfs_init_def)


text \<open>
  Claim C2, as the code has it. The depth limit is checked on the item that is popped,
  not on the address: in every state of a run of either strategy, and in the state in
  which the run ends, every address fetched was popped with a depth of at most
  \<open>max_depth\<close>, and every visited address is among the addresses fetched; an item
  popped with a greater depth is dropped without a fetch and without any change to
  \<open>visited\<close>. An address that was first enqueued at a greater depth can still be
  fetched from a later item that holds it at a depth within the limit. Depth-first
  search on the chain A, B, C with \<open>max_depth = 1\<close> fetches and visits exactly A and B;
  C is popped at depth 2 and dropped.
\<close>

theorem depth_limit_respected:
  "(bfs_steps w a (bfs_init a) s \<longrightarrow> depth_ok a s) \<and>
   (dfs_steps w a (dfs_init a) s' \<longrightarrow> depth_ok a s') \<and>
   depth_ok a (bfs_final w a) \<and>
   depth_ok a (dfs_final w a) \<and>
   (heappop (queue s) = Some ((sc, u, d), rest) \<and> d > max_depth a \<longrightarrow>
      bfs_body w a s = s\<lparr>queue := rest, iterations := Suc (iterations s)\<rparr>) \<and>
   (stack_pop (stack s') = Some ((u, d), rest') \<and> d > max_depth a \<longrightarrow>
      dfs_body w a s' = s'\<lparr>stack := rest', iterations := Suc (iterations s')\<rparr>) \<and>
   visited (dfs_final chain_world chain_args) = {|''http://a'', ''http://b''|} \<and>
   fetch_log (dfs_final chain_world chain_args) = [(''http://a'', 0), (''http://b'', 1)] \<and>
   stack (dfs_body chain_world chain_args
            (dfs_body chain_world chain_args (dfs_init chain_args))) = [(''http://c'', 2)] \<and>
   dfs_final chain_world chain_args =
     (dfs_body chain_world chain_args
        (dfs_body chain_world chain_args (dfs_init chain_args)))
     \<lparr>stack := [], iterations := 3\<rparr>"
proof -
  have b: "depth_ok a t" if "bfs_steps w a (bfs_init a) t" for t
    using bfs_steps_depth[OF that] by (simp add: depth_ok_def)
  have d: "depth_ok a t" if "dfs_steps w a (dfs_init a) t" for t
    using dfs_steps_depth[OF that] by (simp add: depth_ok_def)
  from bfs_final_end[of w a] obtain t where
    "bfs_steps w a (bfs_init a) t" and "bfs_final w a = t \<or> bfs_final w a = polled a t"
    by auto
  with b[of t] have fb: "depth_ok a (bfs_final w a)" by (auto simp: depth_ok_def)
  from dfs_final_end[of w a] obtain t where
    "dfs_steps w a (dfs_init a) t" and "dfs_final w a = t \<or> dfs_final w a = polled a t"
    by auto
  with d[of t] have fd: "depth_ok a (dfs_final w a)" by (auto simp: depth_ok_def)
  have c1: "visited (dfs_final chain_world chain_args) = {|''http://a'', ''http://b''|}"
    by code_simp
  have c2: "fetch_log (dfs_final chain_world chain_args) = [(''http://a'', 0), (''http://b'', 1)]"
    by code_simp
  have c3: "stack (dfs_body chain_world chain_args
            (dfs_body chain_world chain_args (dfs_init chain_args))) = [(''http://c'', 2)]"
    by code_simp
  have c4: "dfs_final chain_world chain_args =
     (dfs_body chain_world chain_args
        (dfs_body chain_world chain_args (dfs_init chain_args)))
     \<lparr>stack := [], iterations := 3\<rparr>"
    by code_simp
  show ?thesis
    using b d fb fd c1 c2 c3 c4 bfs_body_skip[of s sc u d rest a w]
      dfs_body_skip[of s' u d rest' a w]
    by blast
qed


lemma polled_no_event: "stop_event a = None \<Longrightarrow> polled a s = s"
  by (simp add: polled_def)

lemma not_stop_requested_no_event: "stop_event a = None \<Longrightarrow> \<not> stop_requested a s"
  by (simp add: stop_requested_def)

lemma bfs_steps_body:
  assumes "bfs_steps w a s0 s" and "bfs_continue a s" and "stop_event a = None"
  shows "bfs_steps w a s0 (bfs_body w a s)"
  using bfs_steps_step[OF assms(1,2)] assms(3)
  by (simp add: polled_no_event not_stop_requested_no_event)

lemma dfs_steps_body:
  assumes "dfs_steps w a s0 s" and "dfs_continue a s" and "stop_event a = None"
  shows "dfs_steps w a s0 (dfs_body w a s)"
  using dfs_steps_step[OF assms(1,2)] assms(3)
  by (simp add: polled_no_event not_stop_requested_no_event)

theorem depth_limit_respected_witness:
  "bfs_steps chain_world chain_args (bfs_init chain_args)
     (bfs_body chain_world chain_args (bfs_body chain_world chain_args (bfs_init chain_args))) \<and>
   dfs_steps chain_world chain_args (dfs_init chain_args)
     (dfs_body chain_world chain_args (dfs_body chain_world chain_args (dfs_init chain_args))) \<and>
   heappop (queue (bfs_body chain_world chain_args
      (bfs_body chain_world chain_args (bfs_init chain_args)))) = Some ((8, ''http://c'', 2), []) \<and>
   stack_pop (stack (dfs_body chain_world chain_args
      (dfs_body chain_world chain_args (dfs_init chain_args)))) = Some ((''http://c'', 2), []) \<and>
   max_depth chain_args < 2 \<and>
   depth_ok chain_args
     (bfs_body chain_world chain_args (bfs_body chain_world chain_args (bfs_init chain_args))) \<and>
   depth_ok chain_args
     (dfs_body chain_world chain_args (dfs_body chain_world chain_args (dfs_init chain_args))) \<and>
   bfs_body chain_world chain_args
     (bfs_body chain_world chain_args (bfs_body chain_world chain_args (bfs_init chain_args))) =
   (bfs_body chain_world chain_args (bfs_body chain_world chain_args (bfs_init chain_args)))
     \<lparr>queue := [], iterations := 3\<rparr> \<and>
   dfs_body chain_world chain_args
     (dfs_body chain_world chain_args (dfs_body chain_world chain_args (dfs_init chain_args))) =
   (dfs_body chain_world chain_args (dfs_body chain_world chain_args (dfs_init chain_args)))
     \<lparr>stack := [], iterations := 3\<rparr>"
proof -
  let ?w = chain_world and ?a = chain_args
  let ?b1 = "bfs_body ?w ?a (bfs_init ?a)" and ?d1 = "dfs_body ?w ?a (dfs_init ?a)"
  let ?b2 = "bfs_body ?w ?a ?b1" and ?d2 = "dfs_body ?w ?a ?d1"
  have ev: "stop_event ?a = None" by (simp add: chain_args_def)
  have "bfs_continue ?a (bfs_init ?a)" by code_simp
  then have b1: "bfs_steps ?w ?a (bfs_init ?a) ?b1"
    using bfs_steps_body[OF bfs_steps_refl _ ev] by blast
  have "bfs_continue ?a ?b1" by code_simp
  then have b2: "bfs_steps ?w ?a (bfs_init ?a) ?b2"
    using bfs_steps_body[OF b1 _ ev] by blast
  have "dfs_continue ?a (dfs_init ?a)" by code_simp
  then have d1: "dfs_steps ?w ?a (dfs_init ?a) ?d1"
    using dfs_steps_body[OF dfs_steps_refl _ ev] by blast
  have "dfs_continue ?a ?d1" by code_simp
  then have d2: "dfs_steps ?w ?a (dfs_init ?a) ?d2"
    using dfs_steps_body[OF d1 _ ev] by blast
  have hb: "heappop (queue ?b2) = Some ((8, ''http://c'', 2), [])" by code_simp
  have hd: "stack_pop (stack ?d2) = Some ((''http://c'', 2), [])" by code_simp
  have md: "max_depth ?a < 2" by (simp add: chain_args_def)
  have ib: "Suc (iterations ?b2) = 3" by code_simp
  have id: "Suc (iterations ?d2) = 3" by code_simp
  from depth_limit_respected[of ?w ?a ?b2 ?d2 8 "''http://c''" 2 "[]" "[]"]
    b2 d2 hb hd md ib id
  show ?thesis by simp
qed

text \<open>
  The claim as stated fails: with \<open>max_depth = 2\<close>, \<open>http://xxxx\<close> is first enqueued at
  depth 3, from \<open>http://c\<close>; later \<open>http://bb\<close> enqueues it again at depth 2, and that
  item is fetched and the address visited, under both strategies.
\<close>

theorem first_enqueued_depth_counterexample:
  "max_depth detour_args = 2 \<and>
   fetch_log detour_bfs3 = [(''http://s'', 0), (''http://a'', 1), (''http://c'', 2)] \<and>
   queue detour_bfs3 = [(9, ''http://bb'', 1), (11, ''http://xxxx'', 3)] \<and>
   fetch_log (bfs_final detour_world detour_args) =
     [(''http://s'', 0), (''http://a'', 1), (''http://c'', 2), (''http://bb'', 1),
      (''http://xxxx'', 2)] \<and>
   ''http://xxxx'' |\<in>| visited (bfs_final detour_world detour_args) \<and>
   fetch_log detour_dfs3 = [(''http://s'', 0), (''http://a'', 1), (''http://c'', 2)] \<and>
   stack detour_dfs3 = [(''http://bb'', 1), (''http://xxxx'', 3)] \<and>
   fetch_log (dfs_final detour_world detour_args) =
     [(''http://s'', 0), (''http://a'', 1), (''http://c'', 2), (''http://bb'', 1),
      (''http://xxxx'', 2)] \<and>
   ''http://xxxx'' |\<in>| visited (dfs_final detour_world detour_args)"
proof -
  have m: "max_depth detour_args = 2" by (simp add: detour_args_def)
  have b1: "fetch_log detour_bfs3 = [(''http://s'', 0), (''http://a'', 1), (''http://c'', 2)]"
    by code_simp
  have b2: "queue detour_bfs3 = [(9, ''http://bb'', 1), (11, ''http://xxxx'', 3)]"
    by code_simp
  have b3: "fetch_log (bfs_final detour_world detour_args) =
     [(''http://s'', 0), (''http://a'', 1), (''http://c'', 2), (''http://bb'', 1),
      (''http://xxxx'', 2)]"
    by code_simp
  have b4: "''http://xxxx'' |\<in>| visited (bfs_final detour_world detour_args)"
    by code_simp
  have d1: "fetch_log detour_dfs3 = [(''http://s'', 0), (''http://a'', 1), (''http://c'', 2)]"
    by code_simp
  have d2: "stack detour_dfs3 = [(''http://bb'', 1), (''http://xxxx'', 3)]"
    by code_simp
  have d3: "fetch_log (dfs_final detour_world detour_args) =
     [(''http://s'', 0), (''http://a'', 1), (''http://c'', 2), (''http://bb'', 1),
      (''http://xxxx'', 2)]"
    by code_simp
  have d4: "''http://xxxx'' |\<in>| visited (dfs_final detour_world detour_args)"
    by code_simp
  show ?thesis using m b1 b2 b3 b4 d1 d2 d3 d4 by blast
qed

section \<open>The order of the best-first frontier\<close>

lemma heappop_le:
  assumes "heappop q = Some (x, rest)" and "y \<in> set q"
  shows "x \<le> y"
proof -
  from assms(1) have "q \<noteq> []" and "x = min_list q"
    by (auto simp: heappop_def Let_def split: if_splits)
  then have "x = Min (set q)" by (simp add: min_list_Min)
  with assms(2) show ?thesis by simp
qed

lemma heappop_set:
  assumes "heappop q = Some (x, rest)" and "set q' = set q"
  shows "heappop q' = Some (x, remove1 x q')"
proof -
  from assms(1) have ne: "q \<noteq> []" and x: "x = min_list q"
    by (auto simp: heappop_def Let_def split: if_splits)
  from ne assms(2) have ne': "q' \<noteq> []" by auto
  have "min_list q' = min_list q"
    using ne ne' assms(2) by (simp add: min_list_Min)
  with x ne' show ?thesis by (simp add: heappop_def Let_def)
qed

lemma item_le_iff:
  "((sc, u, d) :: item) \<le> (sc', u', d') \<longleftrightarrow>
   sc < sc' \<or> sc = sc' \<and> (u < u' \<or> u = u' \<and> d \<le> d')"
  by (auto simp: less_eq_prod_def)

text \<open>
  Claim C8, as the code has it. The ordering key of the best-first frontier is the whole
  tuple \<open>(score, url, depth)\<close>, ascending: the item popped is at most every pending item
  in the lexicographic order, so among pending items of equal score the one with the
  smaller address is popped first, and among those of equal score and address the one
  with the smaller depth. The order of insertion plays no part: a heap with the same
  pending items yields the same item.
\<close>

theorem heappop_least_tuple:
  assumes "heappop q = Some ((sc, u, d), rest)"
  shows "(\<forall>(sc', u', d') \<in> set q. sc < sc' \<or> sc = sc' \<and> (u < u' \<or> u = u' \<and> d \<le> d')) \<and>
         (set q' = set q \<longrightarrow> heappop q' = Some ((sc, u, d), remove1 (sc, u, d) q'))"
proof -
  have "sc < sc' \<or> sc = sc' \<and> (u < u' \<or> u = u' \<and> d \<le> d')" if "(sc', u', d') \<in> set q" for sc' u' d'
    using heappop_le[OF assms that] by (simp only: item_le_iff)
  moreover have "heappop q' = Some ((sc, u, d), remove1 (sc, u, d) q')" if "set q' = set q"
    using heappop_set[OF assms that] .
  ultimately show ?thesis by blast
qed

theorem heappop_least_tuple_witness:
  "heappop [(5, ''http://b'', 1), (5, ''http://a'', 2), (5, ''http://a'', 1), (7, ''x'', 0)] =
     Some ((5, ''http://a'', 1), [(5, ''http://b'', 1), (5, ''http://a'', 2), (7, ''x'', 0)]) \<and>
   ''http://a'' < ''http://b'' \<and>
   set [(7, ''x'', 0), (5, ''http://a'', 1), (5, ''http://a'', 2), (5, ''http://b'', (1::int))] =
   set [(5, ''http://b'', 1), (5, ''http://a'', 2), (5, ''http://a'', 1), ((7::int), ''x'', 0)] \<and>
   heappop [(7, ''x'', 0), (5, ''http://a'', 1), (5, ''http://a'', 2), (5, ''http://b'', 1)] =
     Some ((5, ''http://a'', 1), [(7, ''x'', 0), (5, ''http://a'', 2), (5, ''http://b'', 1)])"
proof -
  have p: "heappop [(5, ''http://b'', 1), (5, ''http://a'', 2), (5, ''http://a'', 1), (7, ''x'', 0)] =
     Some ((5, ''http://a'', 1), [(5, ''http://b'', 1), (5, ''http://a'', 2), (7, ''x'', 0)])"
    by code_simp
  have s: "set [(7, ''x'', 0), (5, ''http://a'', 1), (5, ''http://a'', 2), (5, ''http://b'', (1::int))] =
   set [(5, ''http://b'', 1), (5, ''http://a'', 2), (5, ''http://a'', 1), ((7::int), ''x'', 0)]"
    by auto
  have l: "''http://a'' < ''http://b''" by code_simp
  from heappop_least_tuple[OF p,
      of "[(7, ''x'', 0), (5, ''http://a'', 1), (5, ''http://a'', 2), (5, ''http://b'', 1)]"] s p l
  show ?thesis by simp
qed

text \<open>
  The claim as stated fails: \<open>http://b\<close> is pushed before \<open>http://a\<close> with the same score,
  and \<open>http://a\<close> is popped, and fetched, first.
\<close>

theorem insertion_order_counterexample:
  "heappop (heappush (heappush [] (5, ''http://b'', 1)) (5, ''http://a'', 1)) =
     Some ((5, ''http://a'', 1), [(5, ''http://b'', 1)]) \<and>
   queue (bfs_body tie_world tie_args (bfs_init tie_args)) =
     [(8, ''http://b'', 1), (8, ''http://a'', 1)] \<and>
   fetch_log (bfs_final tie_world tie_args) =
     [(''http://s'', 0), (''http://a'', 1), (''http://b'', 1)]"
  by code_simp

section \<open>The priority of a discovered link\<close>

lemma foldl_add_sum_list:
  "foldl (\<lambda>score k. score + f k) z ks = z + (\<Sum>k\<leftarrow>ks. (f k :: int))"
  by (induction ks arbitrary: z) simp_all

lemma keyword_heuristic_score_sum:
  "keyword_heuristic_score content ks = (\<Sum>k\<leftarrow>ks. int (ci_count content k))"
  by (simp add: keyword_heuristic_score_def ci_count_def foldl_add_sum_list)

lemma link_score_spec: "link_score a content link = spec_priority a content link"
  by (simp add: link_score_def spec_priority_def keywords_supplied_def
      keyword_heuristic_score_sum split: option.splits)

lemma bfs_links_pushed:
  assumes "bfs_links w a u d vis content tags q cats = (q', r)"
  shows "\<exists>pushed. q' = q @ pushed \<and>
           (\<forall>(p, l, d') \<in> set pushed. p = spec_priority a content l \<and> d' = d + 1 \<and> l |\<notin>| vis) \<and>
           (isl r \<or> map (\<lambda>(p, l, d'). l) pushed = filter (\<lambda>l. l |\<notin>| vis) (discovered_links w u tags))"
  using assms
proof (induction w a u d vis content tags q cats rule: bfs_links.induct)
  case (1 w a current_url depth vis page_content q categories)
  then show ?case by (simp add: discovered_links_def)
next
  case (2 w a current_url depth vis page_content href tag_text tags q categories)
  show ?case
  proof (cases "urljoin w current_url href")
    case (Inl e)
    with "2.prems" show ?thesis by auto
  next
    case (Inr joined)
    let ?link = "rstrip ''/'' joined"
    show ?thesis
    proof (cases "?link |\<notin>| vis")
      case True
      let ?x = "(link_score a page_content ?link, ?link, depth + 1)"
      from "2.prems" Inr True
      have "bfs_links w a current_url depth vis page_content tags (heappush q ?x)
              (add_link categories tag_text ?link) = (q', r)"
        by (simp add: Let_def)
      from "2.IH"(1)[OF Inr refl True this] obtain pushed where
        p: "q' = heappush q ?x @ pushed"
        "\<forall>(p, l, d') \<in> set pushed. p = spec_priority a page_content l \<and> d' = depth + 1 \<and> l |\<notin>| vis"
        "isl r \<or> map (\<lambda>(p, l, d'). l) pushed =
           filter (\<lambda>l. l |\<notin>| vis) (discovered_links w current_url tags)"
        by blast
      have "q' = q @ (?x # pushed)" using p(1) by (simp add: heappush_def)
      moreover have "\<forall>(p, l, d') \<in> set (?x # pushed).
          p = spec_priority a page_content l \<and> d' = depth + 1 \<and> l |\<notin>| vis"
        using p(2) True by (simp add: link_score_spec)
      moreover have "isl r \<or> map (\<lambda>(p, l, d'). l) (?x # pushed) =
           filter (\<lambda>l. l |\<notin>| vis) (discovered_links w current_url ((href, tag_text) # tags))"
        using p(3) True Inr by (auto simp: discovered_links_def)
      ultimately show ?thesis by blast
    next
      case False
      from "2.prems" Inr False
      have "bfs_links w a current_url depth vis page_content tags q categories = (q', r)"
        by (simp add: Let_def)
      from "2.IH"(2)[OF Inr refl False this] obtain pushed where
        p: "q' = q @ pushed"
        "\<forall>(p, l, d') \<in> set pushed. p = spec_priority a page_content l \<and> d' = depth + 1 \<and> l |\<notin>| vis"
        "isl r \<or> map (\<lambda>(p, l, d'). l) pushed =
           filter (\<lambda>l. l |\<notin>| vis) (discovered_links w current_url tags)"
        by blast
      have "isl r \<or> map (\<lambda>(p, l, d'). l) pushed =
           filter (\<lambda>l. l |\<notin>| vis) (discovered_links w current_url ((href, tag_text) # tags))"
        using p(3) False Inr by (auto simp: discovered_links_def)
      with p(1,2) show ?thesis by blast
    qed
  qed
qed


lemma error_log_call_progress [simp]: "error_log (call_progress a s) = error_log s"
  by (simp add: call_progress_def)

text \<open>
  Claim C4. In best-first search every link pushed while a page is processed carries
  the priority of the specification: the sum over the keywords of the case-insensitive
  occurrence count of the keyword in the text of the referring page when keywords are
  supplied, the length of the link otherwise; the links pushed are the discovered links
  that are not visited, in the order of the page. \<open>heappop\<close> returns an item of the
  lowest priority. With no keywords, a link of length 5 is fetched before a link of
  length 50 that was pushed before it.
\<close>

theorem best_first_priority:
  assumes "heappop (queue s) = Some ((sc, u, d), rest)"
    and "u |\<notin>| visited s" and "d \<le> max_depth a"
    and "fetch_page w (iterations s) u = Inr soup"
  shows "(\<exists>pushed. queue (bfs_body w a s) = rest @ pushed \<and>
            (\<forall>(p, l, d') \<in> set pushed. p = spec_priority a (get_text soup) l \<and> d' = d + 1) \<and>
            (error_log (bfs_body w a s) = error_log s \<longrightarrow>
               map (\<lambda>(p, l, d'). l) pushed =
               filter (\<lambda>l. l |\<notin>| finsert u (visited s)) (discovered_links w u (anchors soup)))) \<and>
         (\<forall>(p', l', d') \<in> set (queue s). sc \<le> p') \<and>
         keyword_heuristic_score content ks = (\<Sum>k\<leftarrow>ks. int (ci_count content k)) \<and>
         length ''x:y/z'' = 5 \<and>
         length ''http://s/a-very-long-link-of-fifty-characters/0123'' = 50 \<and>
         queue (bfs_body length_world length_args (bfs_init length_args)) =
           [(50, ''http://s/a-very-long-link-of-fifty-characters/0123'', 1), (5, ''x:y/z'', 1)] \<and>
         fetch_log (bfs_final length_world length_args) =
           [(''http://s'', 0), (''x:y/z'', 1),
            (''http://s/a-very-long-link-of-fifty-characters/0123'', 1)]"
proof -
  obtain q r where l: "bfs_links w a u d (finsert u (visited s)) (get_text soup) (anchors soup)
      rest (extract_categories soup) = (q, r)" by fastforce
  note body = bfs_body_ok[OF assms l]
  from bfs_links_pushed[OF l] obtain pushed where
    p: "q = rest @ pushed"
    "\<forall>(p, l, d') \<in> set pushed. p = spec_priority a (get_text soup) l \<and> d' = d + 1 \<and>
        l |\<notin>| finsert u (visited s)"
    "isl r \<or> map (\<lambda>(p, l, d'). l) pushed =
       filter (\<lambda>l. l |\<notin>| finsert u (visited s)) (discovered_links w u (anchors soup))"
    by blast
  have qb: "queue (bfs_body w a s) = rest @ pushed"
    using body p(1) by (cases r) (simp_all add: Let_def)
  have pr: "\<forall>(p, l, d') \<in> set pushed. p = spec_priority a (get_text soup) l \<and> d' = d + 1"
    using p(2) by blast
  have er: "map (\<lambda>(p, l, d'). l) pushed =
       filter (\<lambda>l. l |\<notin>| finsert u (visited s)) (discovered_links w u (anchors soup))"
    if "error_log (bfs_body w a s) = error_log s"
  proof (cases r)
    case (Inl e)
    with body have "error_log (bfs_body w a s) = error_log s @ [(u, e)]"
      by (simp add: Let_def log_error_def)
    with that show ?thesis by simp
  next
    case (Inr c)
    with p(3) show ?thesis by simp
  qed
  have least: "\<forall>(p', l', d') \<in> set (queue s). sc \<le> p'"
  proof -
    have "sc \<le> p'" if "(p', l', d') \<in> set (queue s)" for p' l' d'
      using heappop_le[OF assms(1) that] by (auto simp: item_le_iff)
    then show ?thesis by blast
  qed
  have c1: "queue (bfs_body length_world length_args (bfs_init length_args)) =
           [(50, ''http://s/a-very-long-link-of-fifty-characters/0123'', 1), (5, ''x:y/z'', 1)]"
    by code_simp
  have c2: "fetch_log (bfs_final length_world length_args) =
           [(''http://s'', 0), (''x:y/z'', 1),
            (''http://s/a-very-long-link-of-fifty-characters/0123'', 1)]"
    by code_simp
  have c3: "length ''x:y/z'' = 5"
    and c4: "length ''http://s/a-very-long-link-of-fifty-characters/0123'' = 50"
    by simp_all
  show ?thesis
    using qb pr er least c1 c2 c3 c4 keyword_heuristic_score_sum[of content ks] by blast
qed

theorem best_first_priority_witness:
  "heappop (queue (bfs_init shop_args)) = Some ((0, ''http://s'', 0), []) \<and>
   ''http://s'' |\<notin>| visited (bfs_init shop_args) \<and>
   0 \<le> max_depth shop_args \<and>
   fetch_page shop_world (iterations (bfs_init shop_args)) ''http://s'' =
     Inr \<lparr>headings = [], anchors = [(''http://s/x'', ''x''), (''http://s/yy/'', ''y'')],
          get_text = ''Shop now: the shop for SHOPs''\<rparr> \<and>
   ci_count ''Shop now: the shop for SHOPs'' ''shop'' = 3 \<and>
   queue (bfs_body shop_world shop_args (bfs_init shop_args)) =
     [(3, ''http://s/x'', 1), (3, ''http://s/yy'', 1)] \<and>
   spec_priority shop_args ''Shop now: the shop for SHOPs'' ''http://s/x'' = 3 \<and>
   spec_priority shop_args ''Shop now: the shop for SHOPs'' ''http://s/yy'' = 3 \<and>
   keyword_heuristic_score ''Shop now: the shop for SHOPs'' [''shop''] = 3"
proof -
  let ?soup = "\<lparr>headings = [], anchors = [(''http://s/x'', ''x''), (''http://s/yy/'', ''y'')],
          get_text = ''Shop now: the shop for SHOPs''\<rparr>"
  have h1: "heappop (queue (bfs_init shop_args)) = Some ((0, ''http://s'', 0), [])"
    by code_simp
  have h2: "''http://s'' |\<notin>| visited (bfs_init shop_args)" by simp
  have h3: "0 \<le> max_depth shop_args" by (simp add: shop_args_def)
  have h4: "fetch_page shop_world (iterations (bfs_init shop_args)) ''http://s'' = Inr ?soup"
    by (simp add: shop_world_def)
  have c: "ci_count ''Shop now: the shop for SHOPs'' ''shop'' = 3" by code_simp
  have q: "queue (bfs_body shop_world shop_args (bfs_init shop_args)) =
     [(3, ''http://s/x'', 1), (3, ''http://s/yy'', 1)]"
    by code_simp
  from best_first_priority[OF h1 h2 h3 h4, of "''Shop now: the shop for SHOPs''" "[''shop'']"]
  obtain pushed where
    p: "queue (bfs_body shop_world shop_args (bfs_init shop_args)) = [] @ pushed"
      "\<forall>(p, l, d') \<in> set pushed. p = spec_priority shop_args (get_text ?soup) l \<and> d' = 0 + 1"
    and k: "keyword_heuristic_score ''Shop now: the shop for SHOPs'' [''shop''] =
      (\<Sum>k\<leftarrow>[''shop'']. int (ci_count ''Shop now: the shop for SHOPs'' k))"
    by blast
  from p q have "spec_priority shop_args ''Shop now: the shop for SHOPs'' ''http://s/x'' = 3"
    and "spec_priority shop_args ''Shop now: the shop for SHOPs'' ''http://s/yy'' = 3"
    by auto
  with h1 h2 h3 h4 c q k show ?thesis by simp
qed

section \<open>The visited check\<close>

lemma dfs_links_pushed:
  assumes "dfs_links w u d vis tags st cats = (st', r)"
  shows "\<exists>pushed. st' = st @ pushed \<and>
           (\<forall>(l, d') \<in> set pushed. d' = d + 1 \<and> l |\<notin>| vis) \<and>
           (isl r \<or> map fst pushed = filter (\<lambda>l. l |\<notin>| vis) (discovered_links w u tags))"
  using assms
proof (induction w u d vis tags st cats rule: dfs_links.induct)
  case (1 w current_url depth vis st categories)
  then show ?case by (simp add: discovered_links_def)
next
  case (2 w current_url depth vis href tag_text tags st categories)
  show ?case
  proof (cases "urljoin w current_url href")
    case (Inl e)
    with "2.prems" show ?thesis by auto
  next
    case (Inr joined)
    let ?link = "rstrip ''/'' joined"
    show ?thesis
    proof (cases "?link |\<notin>| vis")
      case True
      let ?x = "(?link, depth + 1)"
      from "2.prems" Inr True
      have "dfs_links w current_url depth vis tags (st @ [?x])
              (add_link categories tag_text ?link) = (st', r)"
        by (simp add: Let_def)
      from "2.IH"(1)[OF Inr refl True this] obtain pushed where
        p: "st' = (st @ [?x]) @ pushed"
        "\<forall>(l, d') \<in> set pushed. d' = depth + 1 \<and> l |\<notin>| vis"
        "isl r \<or> map fst pushed = filter (\<lambda>l. l |\<notin>| vis) (discovered_links w current_url tags)"
        by blast
      have "st' = st @ (?x # pushed)" using p(1) by simp
      moreover have "\<forall>(l, d') \<in> set (?x # pushed). d' = depth + 1 \<and> l |\<notin>| vis"
        using p(2) True by simp
      moreover have "isl r \<or> map fst (?x # pushed) =
           filter (\<lambda>l. l |\<notin>| vis) (discovered_links w current_url ((href, tag_text) # tags))"
        using p(3) True Inr by (auto simp: discovered_links_def)
      ultimately show ?thesis by blast
    next
      case False
      from "2.prems" Inr False
      have "dfs_links w current_url depth vis tags st categories = (st', r)"
        by (simp add: Let_def)
      from "2.IH"(2)[OF Inr refl False this] obtain pushed where
        p: "st' = st @ pushed"
        "\<forall>(l, d') \<in> set pushed. d' = depth + 1 \<and> l |\<notin>| vis"
        "isl r \<or> map fst pushed = filter (\<lambda>l. l |\<notin>| vis) (discovered_links w current_url tags)"
        by blast
      have "isl r \<or> map fst pushed =
           filter (\<lambda>l. l |\<notin>| vis) (discovered_links w current_url ((href, tag_text) # tags))"
        using p(3) False Inr by (auto simp: discovered_links_def)
      with p(1,2) show ?thesis by blast
    qed
  qed
qed

lemma bfs_steps_refetch:
  assumes "bfs_steps w a s t"
  shows "visited s |\<subseteq>| visited t \<and>
         (\<exists>more. fetch_log t = fetch_log s @ more \<and> (\<forall>(u, d) \<in> set more. u |\<notin>| visited s))"
  using assms
proof (induction rule: bfs_steps.induct)
  case bfs_steps_refl
  show ?case by simp
next
  case (bfs_steps_step t)
  then obtain more where m: "visited s |\<subseteq>| visited t" "fetch_log t = fetch_log s @ more"
    "\<forall>(u, d) \<in> set more. u |\<notin>| visited s" by blast
  from bfs_steps_step have ne: "queue (polled a t) \<noteq> []" by (simp add: bfs_continue_def)
  let ?t' = "bfs_body w a (polled a t)"
  from bfs_body_effect[OF ne, of w a]
  consider "visited ?t' = visited t" "fetch_log ?t' = fetch_log t"
    | u d where "u |\<notin>| visited t" "fetch_log ?t' = fetch_log t @ [(u, d)]"
        "visited ?t' = visited t \<or> visited ?t' = finsert u (visited t)"
    by auto
  then show ?case
  proof cases
    case 1
    with m show ?thesis by auto
  next
    case 2
    from 2(1) m(1) have "u |\<notin>| visited s" by auto
    with m(3) have "\<forall>(u', d') \<in> set (more @ [(u, d)]). u' |\<notin>| visited s" by auto
    moreover have "fetch_log ?t' = fetch_log s @ (more @ [(u, d)])" using 2(2) m(2) by simp
    moreover have "visited s |\<subseteq>| visited ?t'" using 2(3) m(1) by auto
    ultimately show ?thesis by blast
  qed
qed

lemma dfs_steps_refetch:
  assumes "dfs_steps w a s t"
  shows "visited s |\<subseteq>| visited t \<and>
         (\<exists>more. fetch_log t = fetch_log s @ more \<and> (\<forall>(u, d) \<in> set more. u |\<notin>| visited s))"
  using assms
proof (induction rule: dfs_steps.induct)
  case dfs_steps_refl
  show ?case by simp
next
  case (dfs_steps_step t)
  then obtain more where m: "visited s |\<subseteq>| visited t" "fetch_log t = fetch_log s @ more"
    "\<forall>(u, d) \<in> set more. u |\<notin>| visited s" by blast
  from dfs_steps_step have ne: "stack (polled a t) \<noteq> []" by (simp add: dfs_continue_def)
  let ?t' = "dfs_body w a (polled a t)"
  from dfs_body_effect[OF ne, of w a]
  consider "visited ?t' = visited t" "fetch_log ?t' = fetch_log t"
    | u d where "u |\<notin>| visited t" "fetch_log ?t' = fetch_log t @ [(u, d)]"
        "visited ?t' = visited t \<or> visited ?t' = finsert u (visited t)"
    by auto
  then show ?case
  proof cases
    case 1
    with m show ?thesis by auto
  next
    case 2
    from 2(1) m(1) have "u |\<notin>| visited s" by auto
    with m(3) have "\<forall>(u', d') \<in> set (more @ [(u, d)]). u' |\<notin>| visited s" by auto
    moreover have "fetch_log ?t' = fetch_log s @ (more @ [(u, d)])" using 2(2) m(2) by simp
    moreover have "visited s |\<subseteq>| visited ?t'" using 2(3) m(1) by auto
    ultimately show ?thesis by blast
  qed
qed


text \<open>
  What a body does with the item it pops: it adds at most the address of that item to
  \<open>visited\<close>, and only when it was not there; the items it pushes hold addresses that
  are not in \<open>visited\<close> after the body.
\<close>

lemma bfs_body_popped:
  assumes "heappop (queue t) = Some ((sc, u, d), rest)"
  shows "(visited (bfs_body w a t) = visited t \<or>
          u |\<notin>| visited t \<and> visited (bfs_body w a t) = finsert u (visited t)) \<and>
         (\<exists>pushed. queue (bfs_body w a t) = rest @ pushed \<and>
            (\<forall>(p, l, d') \<in> set pushed. l |\<notin>| visited (bfs_body w a t)))"
proof -
  from assms have "queue t \<noteq> []" by (auto simp: heappop_def split: if_splits)
  then show ?thesis
  proof (cases rule: bfs_body_cases[where w = w and a = a])
    case (skip sc' u' d' rest')
    with assms show ?thesis by simp
  next
    case (fail sc' u' d' rest' e)
    with assms show ?thesis by simp
  next
    case (ok sc' u' d' rest' soup q r)
    with assms have eq: "u' = u" "rest' = rest" by simp_all
    from ok(6) have v: "visited (bfs_body w a t) = finsert u' (visited t)"
      and q: "queue (bfs_body w a t) = q"
      by (cases r; simp add: Let_def)+
    from bfs_links_pushed[OF ok(5)] obtain pushed where
      "q = rest' @ pushed" "\<forall>(p, l, d') \<in> set pushed. l |\<notin>| finsert u' (visited t)"
      by blast
    with v q ok(2) eq show ?thesis by auto
  qed
qed

lemma dfs_body_popped:
  assumes "stack_pop (stack t) = Some ((u, d), rest)"
  shows "(visited (dfs_body w a t) = visited t \<or>
          u |\<notin>| visited t \<and> visited (dfs_body w a t) = finsert u (visited t)) \<and>
         (\<exists>pushed. stack (dfs_body w a t) = rest @ pushed \<and>
            (\<forall>(l, d') \<in> set pushed. l |\<notin>| visited (dfs_body w a t)))"
proof -
  from assms have "stack t \<noteq> []" by (auto simp: stack_pop_def split: if_splits)
  then show ?thesis
  proof (cases rule: dfs_body_cases[where w = w and a = a])
    case (skip u' d' rest')
    with assms show ?thesis by simp
  next
    case (fail u' d' rest' e)
    with assms show ?thesis by simp
  next
    case (ok u' d' rest' soup st r)
    with assms have eq: "u' = u" "rest' = rest" by simp_all
    from ok(6) have v: "visited (dfs_body w a t) = finsert u' (visited t)"
      and q: "stack (dfs_body w a t) = st"
      by (cases r; simp add: Let_def)+
    from dfs_links_pushed[OF ok(5)] obtain pushed where
      "st = rest' @ pushed" "\<forall>(l, d') \<in> set pushed. l |\<notin>| finsert u' (visited t)"
      by blast
    with v q ok(2) eq show ?thesis by auto
  qed
qed

text \<open>
  Claim C3, as the code has it. In every run of either strategy an address is added to
  \<open>visited\<close> at most once (a body adds only the address it popped, and only when it is
  not yet visited), and an address that is visited is never fetched or processed again
  in that run: a popped item whose address is visited is dropped. The visited check is
  made when an item is popped and also when a link is pushed: a link that is visited at
  that moment is not pushed. The check at the push does not look at the frontier, so an
  address may be pushed several times before any copy is popped.
\<close>

theorem visited_checked_at_pop_and_push:
  assumes "bfs_steps w a s t" and "dfs_steps w a s' t'"
    and "heappop (queue t) = Some ((sc, u, d), rest)"
    and "stack_pop (stack t') = Some ((u', d'), rest')"
  shows "visited s |\<subseteq>| visited t \<and>
         (\<exists>more. fetch_log t = fetch_log s @ more \<and> (\<forall>(x, y) \<in> set more. x |\<notin>| visited s)) \<and>
         visited s' |\<subseteq>| visited t' \<and>
         (\<exists>more. fetch_log t' = fetch_log s' @ more \<and> (\<forall>(x, y) \<in> set more. x |\<notin>| visited s')) \<and>
         (u |\<in>| visited t \<longrightarrow>
            bfs_body w a t = t\<lparr>queue := rest, iterations := Suc (iterations t)\<rparr>) \<and>
         (u' |\<in>| visited t' \<longrightarrow>
            dfs_body w a t' = t'\<lparr>stack := rest', iterations := Suc (iterations t')\<rparr>) \<and>
         (visited (bfs_body w a t) = visited t \<or>
          u |\<notin>| visited t \<and> visited (bfs_body w a t) = finsert u (visited t)) \<and>
         (visited (dfs_body w a t') = visited t' \<or>
          u' |\<notin>| visited t' \<and> visited (dfs_body w a t') = finsert u' (visited t')) \<and>
         (\<exists>pushed. queue (bfs_body w a t) = rest @ pushed \<and>
            (\<forall>(p, l, y) \<in> set pushed. l |\<notin>| visited (bfs_body w a t))) \<and>
         (\<exists>pushed. stack (dfs_body w a t') = rest' @ pushed \<and>
            (\<forall>(l, y) \<in> set pushed. l |\<notin>| visited (dfs_body w a t'))) \<and>
         queue (bfs_body dup_world dup_args (bfs_init dup_args)) =
           [(8, ''http://b'', 1), (8, ''http://b'', 1)] \<and>
         stack (dfs_body dup_world dup_args (dfs_init dup_args)) =
           [(''http://b'', 1), (''http://b'', 1)] \<and>
         fetch_log (bfs_final dup_world dup_args) = [(''http://s'', 0), (''http://b'', 1)] \<and>
         fetch_log (dfs_final dup_world dup_args) = [(''http://s'', 0), (''http://b'', 1)]"
proof -
  note b = bfs_steps_refetch[OF assms(1)] and d = dfs_steps_refetch[OF assms(2)]
  note pb = bfs_body_popped[OF assms(3), of w a] and pd = dfs_body_popped[OF assms(4), of w a]
  have rb: "bfs_body w a t = t\<lparr>queue := rest, iterations := Suc (iterations t)\<rparr>"
    if "u |\<in>| visited t"
    using bfs_body_skip[OF assms(3), of a w] that by blast
  have rd: "dfs_body w a t' = t'\<lparr>stack := rest', iterations := Suc (iterations t')\<rparr>"
    if "u' |\<in>| visited t'"
    using dfs_body_skip[OF assms(4), of a w] that by blast
  have c1: "queue (bfs_body dup_world dup_args (bfs_init dup_args)) =
           [(8, ''http://b'', 1), (8, ''http://b'', 1)]"
    by code_simp
  have c2: "stack (dfs_body dup_world dup_args (dfs_init dup_args)) =
           [(''http://b'', 1), (''http://b'', 1)]"
    by code_simp
  have c3: "fetch_log (bfs_final dup_world dup_args) = [(''http://s'', 0), (''http://b'', 1)]"
    by code_simp
  have c4: "fetch_log (dfs_final dup_world dup_args) = [(''http://s'', 0), (''http://b'', 1)]"
    by code_simp
  show ?thesis
    using b d pb pd rb rd c1 c2 c3 c4 by blast
qed


theorem visited_checked_at_pop_and_push_witness:
  "bfs_steps dup_world dup_args (bfs_init dup_args)
     (bfs_body dup_world dup_args (bfs_body dup_world dup_args (bfs_init dup_args))) \<and>
   dfs_steps dup_world dup_args (dfs_init dup_args)
     (dfs_body dup_world dup_args (dfs_body dup_world dup_args (dfs_init dup_args))) \<and>
   heappop (queue (bfs_body dup_world dup_args (bfs_body dup_world dup_args (bfs_init dup_args))))
     = Some ((8, ''http://b'', 1), []) \<and>
   stack_pop (stack (dfs_body dup_world dup_args (dfs_body dup_world dup_args (dfs_init dup_args))))
     = Some ((''http://b'', 1), []) \<and>
   ''http://b'' |\<in>|
     visited (bfs_body dup_world dup_args (bfs_body dup_world dup_args (bfs_init dup_args))) \<and>
   ''http://b'' |\<in>|
     visited (dfs_body dup_world dup_args (dfs_body dup_world dup_args (dfs_init dup_args))) \<and>
   bfs_body dup_world dup_args
     (bfs_body dup_world dup_args (bfs_body dup_world dup_args (bfs_init dup_args))) =
   (bfs_body dup_world dup_args (bfs_body dup_world dup_args (bfs_init dup_args)))
     \<lparr>queue := [], iterations := 3\<rparr> \<and>
   dfs_body dup_world dup_args
     (dfs_body dup_world dup_args (dfs_body dup_world dup_args (dfs_init dup_args))) =
   (dfs_body dup_world dup_args (dfs_body dup_world dup_args (dfs_init dup_args)))
     \<lparr>stack := [], iterations := 3\<rparr>"
proof -
  let ?w = dup_world and ?a = dup_args
  let ?b1 = "bfs_body ?w ?a (bfs_init ?a)" and ?d1 = "dfs_body ?w ?a (dfs_init ?a)"
  let ?b2 = "bfs_body ?w ?a ?b1" and ?d2 = "dfs_body ?w ?a ?d1"
  have ev: "stop_event ?a = None" by (simp add: dup_args_def)
  have "bfs_continue ?a (bfs_init ?a)" by code_simp
  then have b1: "bfs_steps ?w ?a (bfs_init ?a) ?b1"
    using bfs_steps_body[OF bfs_steps_refl _ ev] by blast
  have "bfs_continue ?a ?b1" by code_simp
  then have b2: "bfs_steps ?w ?a (bfs_init ?a) ?b2"
    using bfs_steps_body[OF b1 _ ev] by blast
  have "dfs_continue ?a (dfs_init ?a)" by code_simp
  then have d1: "dfs_steps ?w ?a (dfs_init ?a) ?d1"
    using dfs_steps_body[OF dfs_steps_refl _ ev] by blast
  have "dfs_continue ?a ?d1" by code_simp
  then have d2: "dfs_steps ?w ?a (dfs_init ?a) ?d2"
    using dfs_steps_body[OF d1 _ ev] by blast
  have hb: "heappop (queue ?b2) = Some ((8, ''http://b'', 1), [])" by code_simp
  have hd: "stack_pop (stack ?d2) = Some ((''http://b'', 1), [])" by code_simp
  have vb: "''http://b'' |\<in>| visited ?b2" by code_simp
  have vd: "''http://b'' |\<in>| visited ?d2" by code_simp
  have ib: "Suc (iterations ?b2) = 3" by code_simp
  have id: "Suc (iterations ?d2) = 3" by code_simp
  from visited_checked_at_pop_and_push[OF b2 d2 hb hd] vb vd
  have "bfs_body ?w ?a ?b2 = ?b2\<lparr>queue := [], iterations := Suc (iterations ?b2)\<rparr>"
    and "dfs_body ?w ?a ?d2 = ?d2\<lparr>stack := [], iterations := Suc (iterations ?d2)\<rparr>"
    by blast+
  with b2 d2 hb hd vb vd ib id show ?thesis by simp
qed

text \<open>
  The claim as stated fails: the page \<open>http://s\<close> links to itself; the link is
  discovered while \<open>http://s\<close> is already visited, and the check at the push keeps it
  out of the frontier of either strategy.
\<close>

theorem push_time_check_counterexample:
  "fetch_page dup_world 0 ''http://s'' =
     Inr \<lparr>headings = [],
          anchors = [(''http://s/'', ''home''), (''http://b'', ''b''), (''http://b/'', ''b'')],
          get_text = ''home b b''\<rparr> \<and>
   discovered_links dup_world ''http://s''
     [(''http://s/'', ''home''), (''http://b'', ''b''), (''http://b/'', ''b'')] =
     [''http://s'', ''http://b'', ''http://b''] \<and>
   queue (bfs_body dup_world dup_args (bfs_init dup_args)) =
     [(8, ''http://b'', 1), (8, ''http://b'', 1)] \<and>
   stack (dfs_body dup_world dup_args (dfs_init dup_args)) =
     [(''http://b'', 1), (''http://b'', 1)]"
  by code_simp

section \<open>Failures of a fetch\<close>

lemma iterations_polled [simp]: "iterations (polled a s) = iterations s"
  by (simp add: polled_def split: option.splits)

lemma error_log_polled [simp]: "error_log (polled a s) = error_log s"
  by (simp add: polled_def split: option.splits)

lemma categorized_urls_polled [simp]: "categorized_urls (polled a s) = categorized_urls s"
  by (simp add: polled_def split: option.splits)

lemma progress_log_polled [simp]: "progress_log (polled a s) = progress_log s"
  by (simp add: polled_def split: option.splits)

lemma bfs_final_steps: "bfs_steps w a (bfs_init a) s \<Longrightarrow> bfs_final w a = bfs_loop w a s"
  by (simp add: bfs_final_def bfs_loop_steps)

lemma dfs_final_steps: "dfs_steps w a (dfs_init a) s \<Longrightarrow> dfs_final w a = dfs_loop w a s"
  by (simp add: dfs_final_def dfs_loop_steps)

lemma dict_grows_refl: "dict_grows d d"
  unfolding dict_grows_def
proof (clarify)
  fix k vs assume "(k, vs) \<in> set d"
  then have "(k, vs @ []) \<in> set d" by simp
  then show "\<exists>more. (k, vs @ more) \<in> set d" by blast
qed

lemma dict_grows_trans:
  assumes "dict_grows d1 d2" and "dict_grows d2 d3"
  shows "dict_grows d1 d3"
  unfolding dict_grows_def
proof (clarify)
  fix k vs assume "(k, vs) \<in> set d1"
  with assms(1) obtain m1 where "(k, vs @ m1) \<in> set d2"
    by (auto simp: dict_grows_def)
  with assms(2) obtain m2 where "(k, (vs @ m1) @ m2) \<in> set d3"
    by (auto simp: dict_grows_def)
  then show "\<exists>more. (k, vs @ more) \<in> set d3" by (metis append.assoc)
qed

lemma dict_extend_grows: "dict_grows d (dict_extend d k vs)"
proof (induction d)
  case Nil
  show ?case by (simp add: dict_grows_def)
next
  case (Cons p d)
  obtain k' old where p: "p = (k', old)" by (cases p)
  show ?case
  proof (cases "k' = k")
    case True
    have "\<exists>more. (x, ys @ more) \<in> set ((k', old @ vs) # d)"
      if "(x, ys) \<in> set ((k', old) # d)" for x ys
    proof (cases "(x, ys) = (k', old)")
      case True
      then show ?thesis by auto
    next
      case False
      with that have "(x, ys @ []) \<in> set ((k', old @ vs) # d)" by auto
      then show ?thesis by blast
    qed
    with True p show ?thesis by (auto simp: dict_grows_def)
  next
    case False
    have "\<exists>more. (x, ys @ more) \<in> set ((k', old) # dict_extend d k vs)"
      if "(x, ys) \<in> set ((k', old) # d)" for x ys
    proof (cases "(x, ys) = (k', old)")
      case True
      then have "(x, ys @ []) \<in> set ((k', old) # dict_extend d k vs)" by simp
      then show ?thesis by blast
    next
      case False
      with that have "(x, ys) \<in> set d" by auto
      with Cons.IH obtain more where "(x, ys @ more) \<in> set (dict_extend d k vs)"
        by (auto simp: dict_grows_def)
      then show ?thesis by (metis list.set_intros(2))
    qed
    with False p show ?thesis by (auto simp: dict_grows_def)
  qed
qed

lemma merge_categories_grows: "dict_grows d (merge_categories cats d)"
proof (induction cats arbitrary: d)
  case Nil
  show ?case by (simp add: dict_grows_refl)
next
  case (Cons c cats)
  obtain category urls where c: "c = (category, urls)" by (cases c)
  show ?case
  proof (cases "urls = []")
    case True
    with c Cons.IH[of d] show ?thesis by simp
  next
    case False
    from dict_grows_trans[OF dict_extend_grows Cons.IH] c False
    show ?thesis by simp
  qed
qed

lemma categorized_urls_log_error [simp]:
  "categorized_urls (log_error u e s) = categorized_urls s"
  by (simp add: log_error_def)

lemma categorized_urls_call_progress [simp]:
  "categorized_urls (call_progress a s) = categorized_urls s"
  by (simp add: call_progress_def)

lemma bfs_body_grows: "dict_grows (categorized_urls s) (categorized_urls (bfs_body w a s))"
proof (cases "queue s = []")
  case True
  then show ?thesis by (simp add: bfs_body_empty dict_grows_refl)
next
  case False
  then show ?thesis
  proof (cases rule: bfs_body_cases[where w = w and a = a])
    case (skip sc u d rest)
    then show ?thesis by (simp add: dict_grows_refl)
  next
    case (fail sc u d rest e)
    then show ?thesis by (simp add: dict_grows_refl)
  next
    case (ok sc u d rest soup q r)
    then show ?thesis
      by (cases r) (simp_all add: Let_def dict_grows_refl merge_categories_grows)
  qed
qed

lemma dfs_body_grows: "dict_grows (categorized_urls s) (categorized_urls (dfs_body w a s))"
proof (cases "stack s = []")
  case True
  then show ?thesis by (simp add: dfs_body_empty dict_grows_refl)
next
  case False
  then show ?thesis
  proof (cases rule: dfs_body_cases[where w = w and a = a])
    case (skip u d rest)
    then show ?thesis by (simp add: dict_grows_refl)
  next
    case (fail u d rest e)
    then show ?thesis by (simp add: dict_grows_refl)
  next
    case (ok u d rest soup st r)
    then show ?thesis
      by (cases r) (simp_all add: Let_def dict_grows_refl merge_categories_grows)
  qed
qed

lemma bfs_steps_grows:
  "bfs_steps w a s t \<Longrightarrow> dict_grows (categorized_urls s) (categorized_urls t)"
proof (induction rule: bfs_steps.induct)
  case bfs_steps_refl
  show ?case by (rule dict_grows_refl)
next
  case (bfs_steps_step t)
  have "dict_grows (categorized_urls t) (categorized_urls (bfs_body w a (polled a t)))"
    using bfs_body_grows[of "polled a t" w a] by simp
  with bfs_steps_step.IH show ?case by (rule dict_grows_trans)
qed

lemma dfs_steps_grows:
  "dfs_steps w a s t \<Longrightarrow> dict_grows (categorized_urls s) (categorized_urls t)"
proof (induction rule: dfs_steps.induct)
  case dfs_steps_refl
  show ?case by (rule dict_grows_refl)
next
  case (dfs_steps_step t)
  have "dict_grows (categorized_urls t) (categorized_urls (dfs_body w a (polled a t)))"
    using dfs_body_grows[of "polled a t" w a] by simp
  with dfs_steps_step.IH show ?case by (rule dict_grows_trans)
qed

text \<open>
  The result of a run is the \<open>categorized_urls\<close> of the state in which the loop
  started in any state of the run ends, and it keeps what that state has gathered.
\<close>

lemma bfs_crawl_from:
  assumes "bfs_steps w a (bfs_init a) s"
  shows "\<exists>t. bfs_steps w a s t \<and> (\<not> bfs_continue a t \<or> stop_requested a t) \<and>
             bfs_crawl w a = categorized_urls t"
proof -
  from bfs_loop_end[OF bfs_steps_refl, of w a s] obtain t where
    "bfs_steps w a s t" and "\<not> bfs_continue a t \<and> bfs_loop w a s = t \<or>
       bfs_continue a t \<and> stop_requested a t \<and> bfs_loop w a s = polled a t"
    by blast
  then show ?thesis
    using bfs_final_steps[OF assms] by (auto simp: bfs_crawl_def)
qed

lemma dfs_crawl_from:
  assumes "dfs_steps w a (dfs_init a) s"
  shows "\<exists>t. dfs_steps w a s t \<and> (\<not> dfs_continue a t \<or> stop_requested a t) \<and>
             dfs_crawl w a = categorized_urls t"
proof -
  from dfs_loop_end[OF dfs_steps_refl, of w a s] obtain t where
    "dfs_steps w a s t" and "\<not> dfs_continue a t \<and> dfs_loop w a s = t \<or>
       dfs_continue a t \<and> stop_requested a t \<and> dfs_loop w a s = polled a t"
    by blast
  then show ?thesis
    using dfs_final_steps[OF assms] by (auto simp: dfs_crawl_def)
qed


text \<open>
  Claim C5, as the code has it. When the loop of either strategy pops an address \<open>u\<close>
  that it has to fetch and the fetch or the parse fails with message \<open>e\<close>, the body
  leaves \<open>visited\<close> and the result as they are, so that \<open>u\<close> is not visited after it,
  appends \<open>(u, e)\<close> to the error log, and the loop goes on with the rest of the
  frontier. The run ends in the state in which the loop started from there ends, and
  returns the \<open>categorized_urls\<close> of that state, which keep everything gathered before
  the failure. The failure is not final for \<open>u\<close>: as \<open>u\<close> is not visited, a later
  link to it is pushed and fetched again.
\<close>

theorem fetch_failure_recorded:
  "(bfs_steps w a (bfs_init a) s \<and> bfs_continue a s \<and> \<not> stop_requested a s \<and>
    heappop (queue s) = Some ((sc, u, d), rest) \<and> u |\<notin>| visited s \<and> d \<le> max_depth a \<and>
    fetch_page w (iterations s) u = Inl e \<longrightarrow>
      visited (bfs_body w a (polled a s)) = visited s \<and>
      u |\<notin>| visited (bfs_body w a (polled a s)) \<and>
      error_log (bfs_body w a (polled a s)) = error_log s @ [(u, e)] \<and>
      categorized_urls (bfs_body w a (polled a s)) = categorized_urls s \<and>
      queue (bfs_body w a (polled a s)) = rest \<and>
      bfs_steps w a (bfs_init a) (bfs_body w a (polled a s)) \<and>
      bfs_final w a = bfs_loop w a (bfs_body w a (polled a s)) \<and>
      (\<exists>t. bfs_steps w a (bfs_body w a (polled a s)) t \<and>
           (\<not> bfs_continue a t \<or> stop_requested a t) \<and>
           bfs_crawl w a = categorized_urls t) \<and>
      dict_grows (categorized_urls s) (bfs_crawl w a)) \<and>
   (dfs_steps w a (dfs_init a) s' \<and> dfs_continue a s' \<and> \<not> stop_requested a s' \<and>
    stack_pop (stack s') = Some ((u', d'), rest') \<and> u' |\<notin>| visited s' \<and>
    d' \<le> max_depth a \<and> fetch_page w (iterations s') u' = Inl e' \<longrightarrow>
      visited (dfs_body w a (polled a s')) = visited s' \<and>
      u' |\<notin>| visited (dfs_body w a (polled a s')) \<and>
      error_log (dfs_body w a (polled a s')) = error_log s' @ [(u', e')] \<and>
      categorized_urls (dfs_body w a (polled a s')) = categorized_urls s' \<and>
      stack (dfs_body w a (polled a s')) = rest' \<and>
      dfs_steps w a (dfs_init a) (dfs_body w a (polled a s')) \<and>
      dfs_final w a = dfs_loop w a (dfs_body w a (polled a s')) \<and>
      (\<exists>t. dfs_steps w a (dfs_body w a (polled a s')) t \<and>
           (\<not> dfs_continue a t \<or> stop_requested a t) \<and>
           dfs_crawl w a = categorized_urls t) \<and>
      dict_grows (categorized_urls s') (dfs_crawl w a))"
proof (intro conjI impI)
  assume h: "bfs_steps w a (bfs_init a) s \<and> bfs_continue a s \<and> \<not> stop_requested a s \<and>
    heappop (queue s) = Some ((sc, u, d), rest) \<and> u |\<notin>| visited s \<and> d \<le> max_depth a \<and>
    fetch_page w (iterations s) u = Inl e"
  let ?b = "bfs_body w a (polled a s)"
  have "?b = call_progress a (log_error u e
          ((polled a s)\<lparr>queue := rest, iterations := Suc (iterations (polled a s)),
             fetch_log := fetch_log (polled a s) @ [(u, d)]\<rparr>))"
    using h by (intro bfs_body_fail) simp_all
  then have b: "visited ?b = visited s" "error_log ?b = error_log s @ [(u, e)]"
    "categorized_urls ?b = categorized_urls s" "queue ?b = rest"
    by (simp_all add: call_progress_def log_error_def)
  have bs: "bfs_steps w a (bfs_init a) ?b"
    using h bfs_steps_step by blast
  from bfs_crawl_from[OF bs] obtain t where t: "bfs_steps w a ?b t"
    "\<not> bfs_continue a t \<or> stop_requested a t" "bfs_crawl w a = categorized_urls t"
    by blast
  from bfs_steps_grows[OF t(1)] b(3) t(3)
  have g: "dict_grows (categorized_urls s) (bfs_crawl w a)" by simp
  show "visited ?b = visited s" by (rule b(1))
  show "u |\<notin>| visited ?b" using b(1) h by simp
  show "error_log ?b = error_log s @ [(u, e)]" by (rule b(2))
  show "categorized_urls ?b = categorized_urls s" by (rule b(3))
  show "queue ?b = rest" by (rule b(4))
  show "bfs_steps w a (bfs_init a) ?b" by (rule bs)
  show "bfs_final w a = bfs_loop w a ?b" by (rule bfs_final_steps[OF bs])
  show "\<exists>t. bfs_steps w a ?b t \<and> (\<not> bfs_continue a t \<or> stop_requested a t) \<and>
           bfs_crawl w a = categorized_urls t"
    using t by blast
  show "dict_grows (categorized_urls s) (bfs_crawl w a)" by (rule g)
next
  assume h: "dfs_steps w a (dfs_init a) s' \<and> dfs_continue a s' \<and> \<not> stop_requested a s' \<and>
    stack_pop (stack s') = Some ((u', d'), rest') \<and> u' |\<notin>| visited s' \<and>
    d' \<le> max_depth a \<and> fetch_page w (iterations s') u' = Inl e'"
  let ?b = "dfs_body w a (polled a s')"
  have "?b = call_progress a (log_error u' e'
          ((polled a s')\<lparr>stack := rest', iterations := Suc (iterations (polled a s')),
             fetch_log := fetch_log (polled a s') @ [(u', d')]\<rparr>))"
    using h by (intro dfs_body_fail) simp_all
  then have b: "visited ?b = visited s'" "error_log ?b = error_log s' @ [(u', e')]"
    "categorized_urls ?b = categorized_urls s'" "stack ?b = rest'"
    by (simp_all add: call_progress_def log_error_def)
  have bs: "dfs_steps w a (dfs_init a) ?b"
    using h dfs_steps_step by blast
  from dfs_crawl_from[OF bs] obtain t where t: "dfs_steps w a ?b t"
    "\<not> dfs_continue a t \<or> stop_requested a t" "dfs_crawl w a = categorized_urls t"
    by blast
  from dfs_steps_grows[OF t(1)] b(3) t(3)
  have g: "dict_grows (categorized_urls s') (dfs_crawl w a)" by simp
  show "visited ?b = visited s'" by (rule b(1))
  show "u' |\<notin>| visited ?b" using b(1) h by simp
  show "error_log ?b = error_log s' @ [(u', e')]" by (rule b(2))
  show "categorized_urls ?b = categorized_urls s'" by (rule b(3))
  show "stack ?b = rest'" by (rule b(4))
  show "dfs_steps w a (dfs_init a) ?b" by (rule bs)
  show "dfs_final w a = dfs_loop w a ?b" by (rule dfs_final_steps[OF bs])
  show "\<exists>t. dfs_steps w a ?b t \<and> (\<not> dfs_continue a t \<or> stop_requested a t) \<and>
           dfs_crawl w a = categorized_urls t"
    using t by blast
  show "dict_grows (categorized_urls s') (dfs_crawl w a)" by (rule g)
qed

theorem fetch_failure_recorded_witness:
  "bfs_steps flaky_world flaky_args (bfs_init flaky_args)
     (bfs_body flaky_world flaky_args (bfs_init flaky_args)) \<and>
   dfs_steps flaky_world flaky_args (dfs_init flaky_args)
     (dfs_body flaky_world flaky_args (dfs_init flaky_args)) \<and>
   heappop (queue (bfs_body flaky_world flaky_args (bfs_init flaky_args))) =
     Some ((8, ''http://a'', 1), [(8, ''http://b'', 1)]) \<and>
   stack_pop (stack (dfs_body flaky_world flaky_args (dfs_init flaky_args))) =
     Some ((''http://a'', 1), [(''http://b'', 1)]) \<and>
   fetch_page flaky_world 1 ''http://a'' = Inl ''HTTP Error 500: Internal Server Error'' \<and>
   categorized_urls (bfs_body flaky_world flaky_args (bfs_init flaky_args)) =
     [(''books'', [''http://b'', ''http://a''])] \<and>
   categorized_urls (dfs_body flaky_world flaky_args (dfs_init flaky_args)) =
     [(''books'', [''http://b'', ''http://a''])] \<and>
   error_log (bfs_body flaky_world flaky_args
       (bfs_body flaky_world flaky_args (bfs_init flaky_args))) =
     [(''http://a'', ''HTTP Error 500: Internal Server Error'')] \<and>
   error_log (dfs_body flaky_world flaky_args
       (dfs_body flaky_world flaky_args (dfs_init flaky_args))) =
     [(''http://a'', ''HTTP Error 500: Internal Server Error'')] \<and>
   visited (bfs_body flaky_world flaky_args
       (bfs_body flaky_world flaky_args (bfs_init flaky_args))) = {|''http://s''|} \<and>
   visited (dfs_body flaky_world flaky_args
       (dfs_body flaky_world flaky_args (dfs_init flaky_args))) = {|''http://s''|} \<and>
   queue (bfs_body flaky_world flaky_args
       (bfs_body flaky_world flaky_args (bfs_init flaky_args))) = [(8, ''http://b'', 1)] \<and>
   stack (dfs_body flaky_world flaky_args
       (dfs_body flaky_world flaky_args (dfs_init flaky_args))) = [(''http://b'', 1)] \<and>
   visited (bfs_final flaky_world flaky_args) = {|''http://s'', ''http://b''|} \<and>
   visited (dfs_final flaky_world flaky_args) = {|''http://s'', ''http://b''|} \<and>
   bfs_crawl flaky_world flaky_args = [(''books'', [''http://b'', ''http://a''])] \<and>
   dfs_crawl flaky_world flaky_args = [(''books'', [''http://b'', ''http://a''])]"
proof -
  let ?w = flaky_world and ?a = flaky_args
  let ?b1 = "bfs_body ?w ?a (bfs_init ?a)" and ?d1 = "dfs_body ?w ?a (dfs_init ?a)"
  have ev: "stop_event ?a = None" by (simp add: flaky_args_def)
  have pb: "polled ?a ?b1 = ?b1" and pd: "polled ?a ?d1 = ?d1"
    using ev by (simp_all add: polled_no_event)
  have nb: "\<not> stop_requested ?a ?b1" and nd: "\<not> stop_requested ?a ?d1"
    using ev by (simp_all add: not_stop_requested_no_event)
  have "bfs_continue ?a (bfs_init ?a)" by code_simp
  then have b1: "bfs_steps ?w ?a (bfs_init ?a) ?b1"
    using bfs_steps_body[OF bfs_steps_refl _ ev] by blast
  have "dfs_continue ?a (dfs_init ?a)" by code_simp
  then have d1: "dfs_steps ?w ?a (dfs_init ?a) ?d1"
    using dfs_steps_body[OF dfs_steps_refl _ ev] by blast
  have cb: "bfs_continue ?a ?b1" by code_simp
  have cd: "dfs_continue ?a ?d1" by code_simp
  have hb: "heappop (queue ?b1) = Some ((8, ''http://a'', 1), [(8, ''http://b'', 1)])"
    by code_simp
  have hd: "stack_pop (stack ?d1) = Some ((''http://a'', 1), [(''http://b'', 1)])"
    by code_simp
  have vb: "''http://a'' |\<notin>| visited ?b1" and vd: "''http://a'' |\<notin>| visited ?d1"
    by code_simp+
  have md: "1 \<le> max_depth ?a" by (simp add: flaky_args_def)
  have fb: "fetch_page ?w (iterations ?b1) ''http://a'' =
      Inl ''HTTP Error 500: Internal Server Error''"
    and fd: "fetch_page ?w (iterations ?d1) ''http://a'' =
      Inl ''HTTP Error 500: Internal Server Error''"
    and f1: "fetch_page ?w 1 ''http://a'' = Inl ''HTTP Error 500: Internal Server Error''"
    by (simp_all add: flaky_world_def)
  have sb: "visited ?b1 = {|''http://s''|}" and sd: "visited ?d1 = {|''http://s''|}"
    by code_simp+
  have eb: "error_log ?b1 = []" and ed: "error_log ?d1 = []"
    by code_simp+
  have ub: "categorized_urls ?b1 = [(''books'', [''http://b'', ''http://a''])]"
    and ud: "categorized_urls ?d1 = [(''books'', [''http://b'', ''http://a''])]"
    by code_simp+
  have fvb: "visited (bfs_final ?w ?a) = {|''http://s'', ''http://b''|}"
    and fvd: "visited (dfs_final ?w ?a) = {|''http://s'', ''http://b''|}"
    by code_simp+
  have rb: "bfs_crawl ?w ?a = [(''books'', [''http://b'', ''http://a''])]"
    and rd: "dfs_crawl ?w ?a = [(''books'', [''http://b'', ''http://a''])]"
    by code_simp+
  note inst = fetch_failure_recorded[of ?w ?a ?b1 8 "''http://a''" 1 "[(8, ''http://b'', 1)]"
      "''HTTP Error 500: Internal Server Error''" ?d1 "''http://a''" 1 "[(''http://b'', 1)]"
      "''HTTP Error 500: Internal Server Error''"]
  from inst b1 cb nb hb vb md fb
  have "visited (bfs_body ?w ?a (polled ?a ?b1)) = visited ?b1"
    and "error_log (bfs_body ?w ?a (polled ?a ?b1)) =
         error_log ?b1 @ [(''http://a'', ''HTTP Error 500: Internal Server Error'')]"
    and "queue (bfs_body ?w ?a (polled ?a ?b1)) = [(8, ''http://b'', 1)]"
    by blast+
  moreover from inst d1 cd nd hd vd md fd
  have "visited (dfs_body ?w ?a (polled ?a ?d1)) = visited ?d1"
    and "error_log (dfs_body ?w ?a (polled ?a ?d1)) =
         error_log ?d1 @ [(''http://a'', ''HTTP Error 500: Internal Server Error'')]"
    and "stack (dfs_body ?w ?a (polled ?a ?d1)) = [(''http://b'', 1)]"
    by blast+
  ultimately show ?thesis
    using b1 d1 hb hd f1 sb sd eb ed ub ud fvb fvd rb rd pb pd by simp
qed

text \<open>
  The claim as stated fails: the fetch of \<open>http://a\<close> fails in iteration 1 and is
  logged; \<open>http://b\<close> then links to \<open>http://a\<close>, which is pushed and fetched a second
  time, and this time visited, under both strategies.
\<close>

theorem failed_url_retried_counterexample:
  "fetch_page retry_world 1 ''http://a'' = Inl ''HTTP Error 503: Service Unavailable'' \<and>
   fetch_log (bfs_final retry_world flaky_args) =
     [(''http://s'', 0), (''http://a'', 1), (''http://b'', 1), (''http://a'', 2)] \<and>
   error_log (bfs_final retry_world flaky_args) =
     [(''http://a'', ''HTTP Error 503: Service Unavailable'')] \<and>
   ''http://a'' |\<in>| visited (bfs_final retry_world flaky_args) \<and>
   fetch_log (dfs_final retry_world flaky_args) =
     [(''http://s'', 0), (''http://a'', 1), (''http://b'', 1), (''http://a'', 2)] \<and>
   error_log (dfs_final retry_world flaky_args) =
     [(''http://a'', ''HTTP Error 503: Service Unavailable'')] \<and>
   ''http://a'' |\<in>| visited (dfs_final retry_world flaky_args)"
proof -
  have f: "fetch_page retry_world 1 ''http://a'' = Inl ''HTTP Error 503: Service Unavailable''"
    by (simp add: retry_world_def)
  have b1: "fetch_log (bfs_final retry_world flaky_args) =
     [(''http://s'', 0), (''http://a'', 1), (''http://b'', 1), (''http://a'', 2)]"
    by code_simp
  have b2: "error_log (bfs_final retry_world flaky_args) =
     [(''http://a'', ''HTTP Error 503: Service Unavailable'')]"
    by code_simp
  have b3: "''http://a'' |\<in>| visited (bfs_final retry_world flaky_args)"
    by code_simp
  have d1: "fetch_log (dfs_final retry_world flaky_args) =
     [(''http://s'', 0), (''http://a'', 1), (''http://b'', 1), (''http://a'', 2)]"
    by code_simp
  have d2: "error_log (dfs_final retry_world flaky_args) =
     [(''http://a'', ''HTTP Error 503: Service Unavailable'')]"
    by code_simp
  have d3: "''http://a'' |\<in>| visited (dfs_final retry_world flaky_args)"
    by code_simp
  show ?thesis using f b1 b2 b3 d1 d2 d3 by blast
qed

section \<open>Cancellation\<close>

lemma polls_bfs_init [simp]: "polls (bfs_init a) = 0"
  by (simp add: bfs_init_def)

lemma polls_dfs_init [simp]: "polls (dfs_init a) = 0"
  by (simp add: dfs_init_def)

lemma iterations_bfs_init [simp]: "iterations (bfs_init a) = 0"
  by (simp add: bfs_init_def)

lemma iterations_dfs_init [simp]: "iterations (dfs_init a) = 0"
  by (simp add: dfs_init_def)

lemma polls_polled: "stop_event a = Some f \<Longrightarrow> polls (polled a s) = Suc (polls s)"
  by (simp add: polled_def)

lemma polled_event: "stop_event a = Some f \<Longrightarrow> polled a s = s\<lparr>polls := Suc (polls s)\<rparr>"
  by (simp add: polled_def)

lemma stop_requested_event: "stop_event a = Some f \<Longrightarrow> stop_requested a s = f (polls s)"
  by (simp add: stop_requested_def)

text \<open>
  With a stop event, every body of a run was preceded by one poll, and every poll so far
  found the event not set.
\<close>

lemma bfs_steps_polls:
  assumes "bfs_steps w a (bfs_init a) t" and "stop_event a = Some is_set"
  shows "polls t = iterations t \<and> (\<forall>k < polls t. \<not> is_set k)"
  using assms
proof (induction rule: bfs_steps.induct)
  case bfs_steps_refl
  show ?case by simp
next
  case (bfs_steps_step t)
  then have ne: "queue (polled a t) \<noteq> []" by (simp add: bfs_continue_def)
  from bfs_body_effect[OF ne, of w a]
  have "iterations (bfs_body w a (polled a t)) = Suc (iterations t)"
    and "polls (bfs_body w a (polled a t)) = Suc (polls t)"
    using bfs_steps_step.prems by (auto simp: polls_polled)
  moreover have "\<not> is_set (polls t)"
    using bfs_steps_step.hyps(3) bfs_steps_step.prems by (simp add: stop_requested_event)
  ultimately show ?case
    using bfs_steps_step.IH[OF bfs_steps_step.prems] by (auto simp: less_Suc_eq)
qed

lemma dfs_steps_polls:
  assumes "dfs_steps w a (dfs_init a) t" and "stop_event a = Some is_set"
  shows "polls t = iterations t \<and> (\<forall>k < polls t. \<not> is_set k)"
  using assms
proof (induction rule: dfs_steps.induct)
  case dfs_steps_refl
  show ?case by simp
next
  case (dfs_steps_step t)
  then have ne: "stack (polled a t) \<noteq> []" by (simp add: dfs_continue_def)
  from dfs_body_effect[OF ne, of w a]
  have "iterations (dfs_body w a (polled a t)) = Suc (iterations t)"
    and "polls (dfs_body w a (polled a t)) = Suc (polls t)"
    using dfs_steps_step.prems by (auto simp: polls_polled)
  moreover have "\<not> is_set (polls t)"
    using dfs_steps_step.hyps(3) dfs_steps_step.prems by (simp add: stop_requested_event)
  ultimately show ?case
    using dfs_steps_step.IH[OF dfs_steps_step.prems] by (auto simp: less_Suc_eq)
qed

lemma bfs_final_polls:
  assumes "stop_event a = Some is_set"
  shows "(is_set k \<longrightarrow> iterations (bfs_final w a) \<le> k) \<and>
         (polls (bfs_final w a) = iterations (bfs_final w a) \<or>
          polls (bfs_final w a) = Suc (iterations (bfs_final w a)))"
proof -
  from bfs_final_end[of w a] obtain t where t: "bfs_steps w a (bfs_init a) t"
    and f: "bfs_final w a = t \<or> bfs_final w a = polled a t" by auto
  note p = bfs_steps_polls[OF t assms]
  have "iterations t \<le> k" if "is_set k"
    using p that by (metis not_le_imp_less)
  with f p show ?thesis by (auto simp: polls_polled[OF assms])
qed

lemma dfs_final_polls:
  assumes "stop_event a = Some is_set"
  shows "(is_set k \<longrightarrow> iterations (dfs_final w a) \<le> k) \<and>
         (polls (dfs_final w a) = iterations (dfs_final w a) \<or>
          polls (dfs_final w a) = Suc (iterations (dfs_final w a)))"
proof -
  from dfs_final_end[of w a] obtain t where t: "dfs_steps w a (dfs_init a) t"
    and f: "dfs_final w a = t \<or> dfs_final w a = polled a t" by auto
  note p = dfs_steps_polls[OF t assms]
  have "iterations t \<le> k" if "is_set k"
    using p that by (metis not_le_imp_less)
  with f p show ?thesis by (auto simp: polls_polled[OF assms])
qed

text \<open>
  With a stop event, a run ends either by the loop condition, having polled once for
  each body, or at a poll that found the event set, having polled once more.
\<close>

lemma bfs_final_by_poll:
  assumes "stop_event a = Some is_set"
  shows "\<exists>t. bfs_steps w a (bfs_init a) t \<and>
           (\<not> bfs_continue a t \<and> bfs_final w a = t \<and>
              polls (bfs_final w a) = iterations (bfs_final w a) \<or>
            bfs_continue a t \<and> is_set (polls t) \<and>
              bfs_final w a = t\<lparr>polls := Suc (polls t)\<rparr> \<and>
              polls (bfs_final w a) = Suc (iterations (bfs_final w a)))"
proof -
  from bfs_final_end[of w a] obtain t where t: "bfs_steps w a (bfs_init a) t"
    and f: "\<not> bfs_continue a t \<and> bfs_final w a = t \<or>
            bfs_continue a t \<and> stop_requested a t \<and> bfs_final w a = polled a t"
    by blast
  note p = bfs_steps_polls[OF t assms]
  from f show ?thesis
  proof
    assume n: "\<not> bfs_continue a t \<and> bfs_final w a = t"
    with p have "polls (bfs_final w a) = iterations (bfs_final w a)" by simp
    with t n show ?thesis by blast
  next
    assume c: "bfs_continue a t \<and> stop_requested a t \<and> bfs_final w a = polled a t"
    then have i: "is_set (polls t)" and e: "bfs_final w a = t\<lparr>polls := Suc (polls t)\<rparr>"
      using assms by (simp_all add: stop_requested_event polled_event)
    from e p have "polls (bfs_final w a) = Suc (iterations (bfs_final w a))" by simp
    with t c i e show ?thesis by blast
  qed
qed

lemma dfs_final_by_poll:
  assumes "stop_event a = Some is_set"
  shows "\<exists>t. dfs_steps w a (dfs_init a) t \<and>
           (\<not> dfs_continue a t \<and> dfs_final w a = t \<and>
              polls (dfs_final w a) = iterations (dfs_final w a) \<or>
            dfs_continue a t \<and> is_set (polls t) \<and>
              dfs_final w a = t\<lparr>polls := Suc (polls t)\<rparr> \<and>
              polls (dfs_final w a) = Suc (iterations (dfs_final w a)))"
proof -
  from dfs_final_end[of w a] obtain t where t: "dfs_steps w a (dfs_init a) t"
    and f: "\<not> dfs_continue a t \<and> dfs_final w a = t \<or>
            dfs_continue a t \<and> stop_requested a t \<and> dfs_final w a = polled a t"
    by blast
  note p = dfs_steps_polls[OF t assms]
  from f show ?thesis
  proof
    assume n: "\<not> dfs_continue a t \<and> dfs_final w a = t"
    with p have "polls (dfs_final w a) = iterations (dfs_final w a)" by simp
    with t n show ?thesis by blast
  next
    assume c: "dfs_continue a t \<and> stop_requested a t \<and> dfs_final w a = polled a t"
    then have i: "is_set (polls t)" and e: "dfs_final w a = t\<lparr>polls := Suc (polls t)\<rparr>"
      using assms by (simp_all add: stop_requested_event polled_event)
    from e p have "polls (dfs_final w a) = Suc (iterations (dfs_final w a))" by simp
    with t c i e show ?thesis by blast
  qed
qed

lemma bfs_cancelled_at:
  assumes "stop_event a = Some is_set"
    and "bfs_steps w a (bfs_init a) s" and "bfs_continue a s" and "is_set (polls s)"
  shows "bfs_final w a = s\<lparr>polls := Suc (polls s)\<rparr> \<and> bfs_crawl w a = categorized_urls s"
proof -
  have "stop_requested a s" using assms(1,4) by (simp add: stop_requested_event)
  then have "bfs_loop w a s = polled a s"
    using assms(3) by (simp add: bfs_loop.simps[of w a s])
  then have "bfs_final w a = s\<lparr>polls := Suc (polls s)\<rparr>"
    using bfs_final_steps[OF assms(2)] polled_event[OF assms(1)] by simp
  then show ?thesis by (simp add: bfs_crawl_def)
qed

lemma dfs_cancelled_at:
  assumes "stop_event a = Some is_set"
    and "dfs_steps w a (dfs_init a) s" and "dfs_continue a s" and "is_set (polls s)"
  shows "dfs_final w a = s\<lparr>polls := Suc (polls s)\<rparr> \<and> dfs_crawl w a = categorized_urls s"
proof -
  have "stop_requested a s" using assms(1,4) by (simp add: stop_requested_event)
  then have "dfs_loop w a s = polled a s"
    using assms(3) by (simp add: dfs_loop.simps[of w a s])
  then have "dfs_final w a = s\<lparr>polls := Suc (polls s)\<rparr>"
    using dfs_final_steps[OF assms(2)] polled_event[OF assms(1)] by simp
  then show ?thesis by (simp add: dfs_crawl_def)
qed

text \<open>
  Claim C6. With a stop event, each loop polls it once per iteration, after the loop
  condition and before the pop: in every state of a run of either strategy the number
  of polls equals the number of bodies executed, and no earlier poll found the event
  set; a run ends either by the loop condition, with as many polls as bodies, or at a
  poll that finds the event set, with one poll more. Once a poll finds the event set,
  the run ends there: no further item is popped, fetched or processed, the state is the
  one reached so far (with the poll counted), and \<open>bfs_crawl\<close> and \<open>dfs_crawl\<close>
  return its \<open>categorized_urls\<close> as their value. If the event is set at poll \<open>k\<close>, at
  most \<open>k\<close> bodies are executed.
\<close>

theorem cancellation_ends_run:
  assumes "stop_event a = Some is_set"
  shows "(bfs_steps w a (bfs_init a) t \<longrightarrow>
            polls t = iterations t \<and> (\<forall>j < polls t. \<not> is_set j)) \<and>
         (dfs_steps w a (dfs_init a) t' \<longrightarrow>
            polls t' = iterations t' \<and> (\<forall>j < polls t'. \<not> is_set j)) \<and>
         (bfs_steps w a (bfs_init a) s \<and> bfs_continue a s \<and> is_set (polls s) \<longrightarrow>
            bfs_final w a = s\<lparr>polls := Suc (polls s)\<rparr> \<and>
            bfs_crawl w a = categorized_urls s) \<and>
         (dfs_steps w a (dfs_init a) s' \<and> dfs_continue a s' \<and> is_set (polls s') \<longrightarrow>
            dfs_final w a = s'\<lparr>polls := Suc (polls s')\<rparr> \<and>
            dfs_crawl w a = categorized_urls s') \<and>
         (is_set k \<longrightarrow> iterations (bfs_final w a) \<le> k \<and> iterations (dfs_final w a) \<le> k) \<and>
         (\<exists>e. bfs_steps w a (bfs_init a) e \<and>
            (\<not> bfs_continue a e \<and> bfs_final w a = e \<and>
               polls (bfs_final w a) = iterations (bfs_final w a) \<or>
             bfs_continue a e \<and> is_set (polls e) \<and>
               bfs_final w a = e\<lparr>polls := Suc (polls e)\<rparr> \<and>
               polls (bfs_final w a) = Suc (iterations (bfs_final w a)))) \<and>
         (\<exists>e. dfs_steps w a (dfs_init a) e \<and>
            (\<not> dfs_continue a e \<and> dfs_final w a = e \<and>
               polls (dfs_final w a) = iterations (dfs_final w a) \<or>
             dfs_continue a e \<and> is_set (polls e) \<and>
               dfs_final w a = e\<lparr>polls := Suc (polls e)\<rparr> \<and>
               polls (dfs_final w a) = Suc (iterations (dfs_final w a))))"
proof -
  have pb: "polls t = iterations t \<and> (\<forall>j < polls t. \<not> is_set j)"
    if "bfs_steps w a (bfs_init a) t"
    using bfs_steps_polls[OF that assms] .
  have pd: "polls t' = iterations t' \<and> (\<forall>j < polls t'. \<not> is_set j)"
    if "dfs_steps w a (dfs_init a) t'"
    using dfs_steps_polls[OF that assms] .
  have cb: "bfs_final w a = s\<lparr>polls := Suc (polls s)\<rparr> \<and> bfs_crawl w a = categorized_urls s"
    if "bfs_steps w a (bfs_init a) s \<and> bfs_continue a s \<and> is_set (polls s)"
    using bfs_cancelled_at[OF assms] that by blast
  have cd: "dfs_final w a = s'\<lparr>polls := Suc (polls s')\<rparr> \<and> dfs_crawl w a = categorized_urls s'"
    if "dfs_steps w a (dfs_init a) s' \<and> dfs_continue a s' \<and> is_set (polls s')"
    using dfs_cancelled_at[OF assms] that by blast
  have k: "iterations (bfs_final w a) \<le> k \<and> iterations (dfs_final w a) \<le> k" if "is_set k"
    using bfs_final_polls[OF assms, of k w] dfs_final_polls[OF assms, of k w] that by blast
  show ?thesis
    using pb pd cb cd k bfs_final_by_poll[OF assms, of w] dfs_final_by_poll[OF assms, of w]
    by blast
qed

theorem cancellation_ends_run_witness:
  "stop_event stop_args = Some (\<lambda>k. 1 \<le> k) \<and>
   bfs_steps chain_world stop_args (bfs_init stop_args)
     (bfs_body chain_world stop_args (polled stop_args (bfs_init stop_args))) \<and>
   dfs_steps chain_world stop_args (dfs_init stop_args)
     (dfs_body chain_world stop_args (polled stop_args (dfs_init stop_args))) \<and>
   bfs_continue stop_args
     (bfs_body chain_world stop_args (polled stop_args (bfs_init stop_args))) \<and>
   dfs_continue stop_args
     (dfs_body chain_world stop_args (polled stop_args (dfs_init stop_args))) \<and>
   polls (bfs_body chain_world stop_args (polled stop_args (bfs_init stop_args))) = 1 \<and>
   polls (dfs_body chain_world stop_args (polled stop_args (dfs_init stop_args))) = 1 \<and>
   iterations (bfs_body chain_world stop_args (polled stop_args (bfs_init stop_args))) = 1 \<and>
   iterations (dfs_body chain_world stop_args (polled stop_args (dfs_init stop_args))) = 1 \<and>
   bfs_final chain_world stop_args =
     (bfs_body chain_world stop_args (polled stop_args (bfs_init stop_args)))\<lparr>polls := 2\<rparr> \<and>
   dfs_final chain_world stop_args =
     (dfs_body chain_world stop_args (polled stop_args (dfs_init stop_args)))\<lparr>polls := 2\<rparr> \<and>
   iterations (bfs_final chain_world stop_args) \<le> 1 \<and>
   iterations (dfs_final chain_world stop_args) \<le> 1 \<and>
   visited (bfs_final chain_world stop_args) = {|''http://a''|} \<and>
   queue (bfs_final chain_world stop_args) = [(8, ''http://b'', 1)] \<and>
   stack (dfs_final chain_world stop_args) = [(''http://b'', 1)]"
proof -
  let ?w = chain_world and ?a = stop_args
  let ?b1 = "bfs_body ?w ?a (polled ?a (bfs_init ?a))"
  let ?d1 = "dfs_body ?w ?a (polled ?a (dfs_init ?a))"
  have ev: "stop_event ?a = Some (\<lambda>k. 1 \<le> k)" by (simp add: stop_args_def)
  have "bfs_continue ?a (bfs_init ?a)" and "\<not> stop_requested ?a (bfs_init ?a)"
    by code_simp+
  then have b1: "bfs_steps ?w ?a (bfs_init ?a) ?b1"
    using bfs_steps_step[OF bfs_steps_refl] by blast
  have "dfs_continue ?a (dfs_init ?a)" and "\<not> stop_requested ?a (dfs_init ?a)"
    by code_simp+
  then have d1: "dfs_steps ?w ?a (dfs_init ?a) ?d1"
    using dfs_steps_step[OF dfs_steps_refl] by blast
  have cb: "bfs_continue ?a ?b1" and cd: "dfs_continue ?a ?d1" by code_simp+
  have pb: "polls ?b1 = 1" and pd: "polls ?d1 = 1" by code_simp+
  have v: "visited (bfs_final ?w ?a) = {|''http://a''|}"
    and q: "queue (bfs_final ?w ?a) = [(8, ''http://b'', 1)]"
    and st: "stack (dfs_final ?w ?a) = [(''http://b'', 1)]"
    by code_simp+
  note inst = cancellation_ends_run[OF ev, of ?w ?b1 ?d1 ?b1 ?d1 1]
  from inst b1 d1 have "polls ?b1 = iterations ?b1" and "polls ?d1 = iterations ?d1"
    by blast+
  moreover from inst b1 d1 cb cd pb pd
  have "bfs_final ?w ?a = ?b1\<lparr>polls := Suc (polls ?b1)\<rparr>"
    and "dfs_final ?w ?a = ?d1\<lparr>polls := Suc (polls ?d1)\<rparr>"
    by simp_all
  moreover from inst
  have "iterations (bfs_final ?w ?a) \<le> 1" and "iterations (dfs_final ?w ?a) \<le> 1"
    by simp_all
  ultimately show ?thesis
    using ev b1 d1 cb cd pb pd v q st by simp
qed

section \<open>The progress callback\<close>

lemma progress_log_bfs_init [simp]: "progress_log (bfs_init a) = []"
  by (simp add: bfs_init_def)

lemma progress_log_dfs_init [simp]: "progress_log (dfs_init a) = []"
  by (simp add: dfs_init_def)

lemma bfs_body_progress:
  assumes "heappop (queue s) = Some ((sc, u, d), rest)"
  shows "progress_log (bfs_body w a s) =
         (if progress_callback a \<and> u |\<notin>| visited s \<and> d \<le> max_depth a
          then progress_log s @ [(fcard (visited (bfs_body w a s)), max_pages a)]
          else progress_log s) \<and>
         fetch_log (bfs_body w a s) =
         (if u |\<notin>| visited s \<and> d \<le> max_depth a then fetch_log s @ [(u, d)]
          else fetch_log s)"
proof -
  from assms have "queue s \<noteq> []" by (auto simp: heappop_def split: if_splits)
  then show ?thesis
  proof (cases rule: bfs_body_cases[where w = w and a = a])
    case (skip sc' u' d' rest')
    with assms show ?thesis by auto
  next
    case (fail sc' u' d' rest' e)
    with assms show ?thesis by (simp add: call_progress_def log_error_def)
  next
    case (ok sc' u' d' rest' soup q r)
    with assms show ?thesis
      by (cases r) (simp_all add: call_progress_def log_error_def Let_def)
  qed
qed

lemma dfs_body_progress:
  assumes "stack_pop (stack s) = Some ((u, d), rest)"
  shows "progress_log (dfs_body w a s) =
         (if progress_callback a \<and> u |\<notin>| visited s \<and> d \<le> max_depth a
          then progress_log s @ [(fcard (visited (dfs_body w a s)), max_pages a)]
          else progress_log s) \<and>
         fetch_log (dfs_body w a s) =
         (if u |\<notin>| visited s \<and> d \<le> max_depth a then fetch_log s @ [(u, d)]
          else fetch_log s)"
proof -
  from assms have "stack s \<noteq> []" by (auto simp: stack_pop_def split: if_splits)
  then show ?thesis
  proof (cases rule: dfs_body_cases[where w = w and a = a])
    case (skip u' d' rest')
    with assms show ?thesis by auto
  next
    case (fail u' d' rest' e)
    with assms show ?thesis by (simp add: call_progress_def log_error_def)
  next
    case (ok u' d' rest' soup st r)
    with assms show ?thesis
      by (cases r) (simp_all add: call_progress_def log_error_def Let_def)
  qed
qed

lemma bfs_steps_progress:
  assumes "bfs_steps w a (bfs_init a) t"
  shows "length (progress_log t) = (if progress_callback a then length (fetch_log t) else 0)"
  using assms
proof (induction rule: bfs_steps.induct)
  case bfs_steps_refl
  show ?case by simp
next
  case (bfs_steps_step t)
  then have "queue (polled a t) \<noteq> []" by (simp add: bfs_continue_def)
  then obtain sc u d rest where "heappop (queue (polled a t)) = Some ((sc, u, d), rest)"
    by (cases rule: bfs_body_cases[where w = w and a = a]) blast+
  from bfs_body_progress[OF this, of w a] bfs_steps_step.IH
  show ?case by (simp split: if_splits)
qed

lemma dfs_steps_progress:
  assumes "dfs_steps w a (dfs_init a) t"
  shows "length (progress_log t) = (if progress_callback a then length (fetch_log t) else 0)"
  using assms
proof (induction rule: dfs_steps.induct)
  case dfs_steps_refl
  show ?case by simp
next
  case (dfs_steps_step t)
  then have "stack (polled a t) \<noteq> []" by (simp add: dfs_continue_def)
  then obtain u d rest where "stack_pop (stack (polled a t)) = Some ((u, d), rest)"
    by (cases rule: dfs_body_cases[where w = w and a = a]) blast+
  from dfs_body_progress[OF this, of w a] dfs_steps_step.IH
  show ?case by (simp split: if_splits)
qed

text \<open>
  Claim C9, as the code has it. When a progress callback is supplied, it is called with
  the number of visited addresses and \<open>max_pages\<close> at the end of every iteration that
  attempts a fetch, whether the fetch succeeds or fails. An iteration whose popped item
  is dropped, because its address is visited or its depth exceeds \<open>max_depth\<close>, does not
  call it. In every state of a run the callback has been called once per fetch.
\<close>

theorem progress_after_fetch_only:
  assumes "progress_callback a"
    and "heappop (queue s) = Some ((sc, u, d), rest)"
    and "stack_pop (stack s') = Some ((u', d'), rest')"
  shows "(u |\<notin>| visited s \<and> d \<le> max_depth a \<longrightarrow>
            progress_log (bfs_body w a s) =
            progress_log s @ [(fcard (visited (bfs_body w a s)), max_pages a)]) \<and>
         (u |\<in>| visited s \<or> d > max_depth a \<longrightarrow>
            progress_log (bfs_body w a s) = progress_log s) \<and>
         (u' |\<notin>| visited s' \<and> d' \<le> max_depth a \<longrightarrow>
            progress_log (dfs_body w a s') =
            progress_log s' @ [(fcard (visited (dfs_body w a s')), max_pages a)]) \<and>
         (u' |\<in>| visited s' \<or> d' > max_depth a \<longrightarrow>
            progress_log (dfs_body w a s') = progress_log s') \<and>
         (bfs_steps w a (bfs_init a) t \<longrightarrow> length (progress_log t) = length (fetch_log t)) \<and>
         (dfs_steps w a (dfs_init a) t' \<longrightarrow> length (progress_log t') = length (fetch_log t'))"
proof -
  note b = bfs_body_progress[OF assms(2), of w a] and d = dfs_body_progress[OF assms(3), of w a]
  have b1: "progress_log (bfs_body w a s) =
            progress_log s @ [(fcard (visited (bfs_body w a s)), max_pages a)]"
    if "u |\<notin>| visited s \<and> d \<le> max_depth a"
    using b that assms(1) by simp
  have b2: "progress_log (bfs_body w a s) = progress_log s"
    if "u |\<in>| visited s \<or> d > max_depth a"
    using b that by auto
  have d1: "progress_log (dfs_body w a s') =
            progress_log s' @ [(fcard (visited (dfs_body w a s')), max_pages a)]"
    if "u' |\<notin>| visited s' \<and> d' \<le> max_depth a"
    using d that assms(1) by simp
  have d2: "progress_log (dfs_body w a s') = progress_log s'"
    if "u' |\<in>| visited s' \<or> d' > max_depth a"
    using d that by auto
  have rb: "length (progress_log t) = length (fetch_log t)" if "bfs_steps w a (bfs_init a) t"
    using bfs_steps_progress[OF that] assms(1) by simp
  have rd: "length (progress_log t') = length (fetch_log t')" if "dfs_steps w a (dfs_init a) t'"
    using dfs_steps_progress[OF that] assms(1) by simp
  show ?thesis using b1 b2 d1 d2 rb rd by blast
qed


theorem progress_after_fetch_only_witness:
  "progress_callback chain_args \<and>
   heappop (queue (bfs_body chain_world chain_args (bfs_init chain_args))) =
     Some ((8, ''http://b'', 1), []) \<and>
   stack_pop (stack (dfs_body chain_world chain_args
       (dfs_body chain_world chain_args (dfs_init chain_args)))) = Some ((''http://c'', 2), []) \<and>
   ''http://b'' |\<notin>| visited (bfs_body chain_world chain_args (bfs_init chain_args)) \<and>
   1 \<le> max_depth chain_args \<and>
   max_depth chain_args < 2 \<and>
   bfs_steps chain_world chain_args (bfs_init chain_args)
     (bfs_body chain_world chain_args (bfs_init chain_args)) \<and>
   dfs_steps chain_world chain_args (dfs_init chain_args)
     (dfs_body chain_world chain_args (dfs_body chain_world chain_args (dfs_init chain_args))) \<and>
   progress_log (bfs_body chain_world chain_args (bfs_init chain_args)) = [(1, 5)] \<and>
   progress_log (bfs_body chain_world chain_args
       (bfs_body chain_world chain_args (bfs_init chain_args))) = [(1, 5), (2, 5)] \<and>
   progress_log (dfs_body chain_world chain_args
       (dfs_body chain_world chain_args (dfs_init chain_args))) = [(1, 5), (2, 5)] \<and>
   progress_log (dfs_body chain_world chain_args (dfs_body chain_world chain_args
       (dfs_body chain_world chain_args (dfs_init chain_args)))) = [(1, 5), (2, 5)] \<and>
   length (fetch_log (bfs_body chain_world chain_args (bfs_init chain_args))) = 1 \<and>
   length (fetch_log (dfs_body chain_world chain_args
       (dfs_body chain_world chain_args (dfs_init chain_args)))) = 2"
proof -
  let ?w = chain_world and ?a = chain_args
  let ?b1 = "bfs_body ?w ?a (bfs_init ?a)" and ?d1 = "dfs_body ?w ?a (dfs_init ?a)"
  let ?d2 = "dfs_body ?w ?a ?d1"
  have pc: "progress_callback ?a" by (simp add: chain_args_def)
  have ev: "stop_event ?a = None" by (simp add: chain_args_def)
  have "bfs_continue ?a (bfs_init ?a)" by code_simp
  then have b1: "bfs_steps ?w ?a (bfs_init ?a) ?b1"
    using bfs_steps_body[OF bfs_steps_refl _ ev] by blast
  have "dfs_continue ?a (dfs_init ?a)" by code_simp
  then have d1: "dfs_steps ?w ?a (dfs_init ?a) ?d1"
    using dfs_steps_body[OF dfs_steps_refl _ ev] by blast
  have "dfs_continue ?a ?d1" by code_simp
  then have d2: "dfs_steps ?w ?a (dfs_init ?a) ?d2"
    using dfs_steps_body[OF d1 _ ev] by blast
  have hb: "heappop (queue ?b1) = Some ((8, ''http://b'', 1), [])" by code_simp
  have hd: "stack_pop (stack ?d2) = Some ((''http://c'', 2), [])" by code_simp
  have vb: "''http://b'' |\<notin>| visited ?b1" by code_simp
  have m1: "1 \<le> max_depth ?a" and m2: "max_depth ?a < 2" by (simp_all add: chain_args_def)
  have mp: "max_pages ?a = 5" by (simp add: chain_args_def)
  have p1: "progress_log ?b1 = [(1, 5)]" by code_simp
  have p2: "progress_log ?d2 = [(1, 5), (2, 5)]" by code_simp
  have c2: "fcard (visited (bfs_body ?w ?a ?b1)) = 2" by code_simp
  from progress_after_fetch_only[OF pc hb hd, of ?w ?b1 ?d2] vb m1 m2 b1 d2
  have "progress_log (bfs_body ?w ?a ?b1) =
          progress_log ?b1 @ [(fcard (visited (bfs_body ?w ?a ?b1)), max_pages ?a)]"
    and "progress_log (dfs_body ?w ?a ?d2) = progress_log ?d2"
    and "length (progress_log ?b1) = length (fetch_log ?b1)"
    and "length (progress_log ?d2) = length (fetch_log ?d2)"
    by auto
  with pc hb hd vb m1 m2 b1 d2 p1 p2 c2 mp show ?thesis by simp
qed

text \<open>
  The claim as stated fails: on the chain with \<open>max_depth = 1\<close> either strategy runs
  three iterations and calls the callback twice, the third item being dropped for its
  depth; on the page with a duplicate link the third iteration pops a visited address
  and does not call the callback.
\<close>

theorem progress_every_iteration_counterexample:
  "iterations (bfs_final chain_world chain_args) = 3 \<and>
   progress_log (bfs_final chain_world chain_args) = [(1, 5), (2, 5)] \<and>
   iterations (dfs_final chain_world chain_args) = 3 \<and>
   progress_log (dfs_final chain_world chain_args) = [(1, 5), (2, 5)] \<and>
   iterations (bfs_final dup_world dup_progress_args) = 3 \<and>
   progress_log (bfs_final dup_world dup_progress_args) = [(1, 5), (2, 5)] \<and>
   iterations (dfs_final dup_world dup_progress_args) = 3 \<and>
   progress_log (dfs_final dup_world dup_progress_args) = [(1, 5), (2, 5)]"
  by code_simp

section \<open>Arguments that the specification calls invalid\<close>

lemma bfs_init_body:
  assumes "0 \<le> max_depth a"
  shows "fetch_log (bfs_body w a (polled a (bfs_init a))) = [(start_url a, 0)] \<and>
         iterations (bfs_body w a (polled a (bfs_init a))) = 1"
proof -
  have h: "heappop (queue (polled a (bfs_init a))) = Some ((0, start_url a, 0), [])"
    by (simp add: bfs_init_def heappop_def)
  have q: "queue (polled a (bfs_init a)) \<noteq> []" by (simp add: bfs_init_def)
  from bfs_body_progress[OF h, of w a] bfs_body_effect[OF q, of w a] assms
  show ?thesis by auto
qed

lemma dfs_init_body:
  assumes "0 \<le> max_depth a"
  shows "fetch_log (dfs_body w a (polled a (dfs_init a))) = [(start_url a, 0)] \<and>
         iterations (dfs_body w a (polled a (dfs_init a))) = 1"
proof -
  have h: "stack_pop (stack (polled a (dfs_init a))) = Some ((start_url a, 0), [])"
    by (simp add: dfs_init_def stack_pop_def)
  have q: "stack (polled a (dfs_init a)) \<noteq> []" by (simp add: dfs_init_def)
  from dfs_body_progress[OF h, of w a] dfs_body_effect[OF q, of w a] assms
  show ?thesis by auto
qed

lemma bfs_loop_fetch_log: "\<exists>more. fetch_log (bfs_loop w a s) = fetch_log s @ more"
proof -
  from bfs_loop_end[OF bfs_steps_refl, of w a s] obtain t where
    t: "bfs_steps w a s t" and f: "bfs_loop w a s = t \<or> bfs_loop w a s = polled a t"
    by auto
  from bfs_steps_refetch[OF t] f show ?thesis by auto
qed

lemma dfs_loop_fetch_log: "\<exists>more. fetch_log (dfs_loop w a s) = fetch_log s @ more"
proof -
  from dfs_loop_end[OF dfs_steps_refl, of w a s] obtain t where
    t: "dfs_steps w a s t" and f: "dfs_loop w a s = t \<or> dfs_loop w a s = polled a t"
    by auto
  from dfs_steps_refetch[OF t] f show ?thesis by auto
qed

text \<open>
  Claim C10, as the code has it. \<open>bfs_crawl\<close> and \<open>dfs_crawl\<close> check none of their
  arguments and report no configuration error. With \<open>max_pages \<le> 0\<close> the loop
  condition fails at once: no body runs, nothing is fetched, and the empty result is
  returned as an ordinary value. The seed is not inspected: with \<open>max_pages \<ge> 1\<close>,
  \<open>max_depth \<ge> 0\<close> and the stop event not set at the first poll, the first iteration
  pops the seed and fetches it, whatever it is, the empty address included.
\<close>

theorem arguments_not_checked:
  "(max_pages a \<le> 0 \<longrightarrow>
      bfs_final w a = bfs_init a \<and> dfs_final w a = dfs_init a \<and>
      bfs_crawl w a = [] \<and> dfs_crawl w a = []) \<and>
   (1 \<le> max_pages a \<and> 0 \<le> max_depth a \<and> \<not> stop_requested a (bfs_init a) \<longrightarrow>
      (\<exists>more. fetch_log (bfs_final w a) = (start_url a, 0) # more)) \<and>
   (1 \<le> max_pages a \<and> 0 \<le> max_depth a \<and> \<not> stop_requested a (dfs_init a) \<longrightarrow>
      (\<exists>more. fetch_log (dfs_final w a) = (start_url a, 0) # more))"
proof -
  have z: "bfs_final w a = bfs_init a \<and> dfs_final w a = dfs_init a \<and>
      bfs_crawl w a = [] \<and> dfs_crawl w a = []" if "max_pages a \<le> 0"
  proof -
    have "\<not> bfs_continue a (bfs_init a)" and "\<not> dfs_continue a (dfs_init a)"
      using that by (simp_all add: bfs_continue_def dfs_continue_def)
    then have "bfs_final w a = bfs_init a" and "dfs_final w a = dfs_init a"
      by (simp_all add: bfs_final_def dfs_final_def
          bfs_loop.simps[of w a "bfs_init a"] dfs_loop.simps[of w a "dfs_init a"])
    then show ?thesis
      by (simp add: bfs_crawl_def dfs_crawl_def bfs_init_def dfs_init_def)
  qed
  have b: "\<exists>more. fetch_log (bfs_final w a) = (start_url a, 0) # more"
    if "1 \<le> max_pages a \<and> 0 \<le> max_depth a \<and> \<not> stop_requested a (bfs_init a)"
  proof -
    from that have "bfs_continue a (bfs_init a)"
      by (simp add: bfs_continue_def bfs_init_def fcard_fempty)
    with that have "bfs_final w a = bfs_loop w a (bfs_body w a (polled a (bfs_init a)))"
      by (simp add: bfs_final_def bfs_loop.simps[of w a "bfs_init a"])
    with bfs_loop_fetch_log[of w a "bfs_body w a (polled a (bfs_init a))"]
      bfs_init_body[of a w] that
    show ?thesis by auto
  qed
  have d: "\<exists>more. fetch_log (dfs_final w a) = (start_url a, 0) # more"
    if "1 \<le> max_pages a \<and> 0 \<le> max_depth a \<and> \<not> stop_requested a (dfs_init a)"
  proof -
    from that have "dfs_continue a (dfs_init a)"
      by (simp add: dfs_continue_def dfs_init_def fcard_fempty)
    with that have "dfs_final w a = dfs_loop w a (dfs_body w a (polled a (dfs_init a)))"
      by (simp add: dfs_final_def dfs_loop.simps[of w a "dfs_init a"])
    with dfs_loop_fetch_log[of w a "dfs_body w a (polled a (dfs_init a))"]
      dfs_init_body[of a w] that
    show ?thesis by auto
  qed
  show ?thesis using z b d by blast
qed

theorem arguments_not_checked_witness:
  "max_pages zero_pages_args \<le> 0 \<and>
   bfs_final chain_world zero_pages_args = bfs_init zero_pages_args \<and>
   dfs_final chain_world zero_pages_args = dfs_init zero_pages_args \<and>
   bfs_crawl chain_world zero_pages_args = [] \<and>
   dfs_crawl chain_world zero_pages_args = [] \<and>
   1 \<le> max_pages empty_seed_args \<and>
   0 \<le> max_depth empty_seed_args \<and>
   \<not> stop_requested empty_seed_args (bfs_init empty_seed_args) \<and>
   \<not> stop_requested empty_seed_args (dfs_init empty_seed_args) \<and>
   start_url empty_seed_args = [] \<and>
   hd (fetch_log (bfs_final empty_seed_world empty_seed_args)) = ([], 0) \<and>
   hd (fetch_log (dfs_final empty_seed_world empty_seed_args)) = ([], 0)"
proof -
  have z: "max_pages zero_pages_args \<le> 0"
    by (simp add: zero_pages_args_def)
  have e: "1 \<le> max_pages empty_seed_args" "0 \<le> max_depth empty_seed_args"
    "\<not> stop_requested empty_seed_args (bfs_init empty_seed_args)"
    "\<not> stop_requested empty_seed_args (dfs_init empty_seed_args)"
    "start_url empty_seed_args = []"
    by (simp_all add: empty_seed_args_def stop_requested_def)
  from arguments_not_checked[of zero_pages_args chain_world] z
  have r1: "bfs_final chain_world zero_pages_args = bfs_init zero_pages_args"
    "dfs_final chain_world zero_pages_args = dfs_init zero_pages_args"
    "bfs_crawl chain_world zero_pages_args = []"
    "dfs_crawl chain_world zero_pages_args = []"
    by blast+
  from arguments_not_checked[of empty_seed_args empty_seed_world] e
  obtain mb md where
    "fetch_log (bfs_final empty_seed_world empty_seed_args) = ([], 0) # mb"
    "fetch_log (dfs_final empty_seed_world empty_seed_args) = ([], 0) # md"
    by auto
  with z e r1 show ?thesis by simp
qed

text \<open>
  The claim as stated fails: with an empty seed either strategy runs an iteration and
  calls the fetcher with the empty address; the failure of that fetch is logged as a
  page failure and the empty result is returned.
\<close>

theorem empty_seed_counterexample:
  "start_url empty_seed_args = [] \<and>
   iterations (bfs_final empty_seed_world empty_seed_args) = 1 \<and>
   fetch_log (bfs_final empty_seed_world empty_seed_args) = [([], 0)] \<and>
   error_log (bfs_final empty_seed_world empty_seed_args) =
     [([], ''unknown url type: '' @ [CHR 0x27, CHR 0x27])] \<and>
   bfs_crawl empty_seed_world empty_seed_args = [] \<and>
   iterations (dfs_final empty_seed_world empty_seed_args) = 1 \<and>
   fetch_log (dfs_final empty_seed_world empty_seed_args) = [([], 0)] \<and>
   error_log (dfs_final empty_seed_world empty_seed_args) =
     [([], ''unknown url type: '' @ [CHR 0x27, CHR 0x27])] \<and>
   dfs_crawl empty_seed_world empty_seed_args = []"
  by code_simp

section \<open>Trailing slashes\<close>

lemma rstrip_no_trailing_slash: "no_trailing_slash (rstrip ''/'' s)"
proof (cases "dropWhile (\<lambda>c. c \<in> set ''/'') (rev s)")
  case Nil
  then show ?thesis by (simp add: no_trailing_slash_def rstrip_def)
next
  case (Cons c cs)
  then have "\<not> (c \<in> set ''/'')"
    by (metis hd_dropWhile list.discI list.sel(1))
  with Cons show ?thesis by (simp add: no_trailing_slash_def rstrip_def)
qed

lemma bfs_links_no_slash:
  assumes "bfs_links w a u d vis content tags q cats = (q', r)"
    and "\<forall>(p, l, d') \<in> set q. P l" and "\<And>s. P (rstrip ''/'' s)"
  shows "\<forall>(p, l, d') \<in> set q'. P l"
  using assms(1,2)
proof (induction w a u d vis content tags q cats rule: bfs_links.induct)
  case (1 w a current_url depth vis page_content q categories)
  then show ?case by simp
next
  case (2 w a current_url depth vis page_content href tag_text tags q categories)
  show ?case
  proof (cases "urljoin w current_url href")
    case (Inl e)
    with "2.prems" show ?thesis by auto
  next
    case (Inr joined)
    let ?link = "rstrip ''/'' joined"
    show ?thesis
    proof (cases "?link |\<notin>| vis")
      case True
      let ?x = "(link_score a page_content ?link, ?link, depth + 1)"
      from "2.prems" Inr True
      have l: "bfs_links w a current_url depth vis page_content tags (heappush q ?x)
              (add_link categories tag_text ?link) = (q', r)"
        by (simp add: Let_def)
      have "\<forall>(p, l, d') \<in> set (heappush q ?x). P l"
        using "2.prems"(2) assms(3) by (auto simp: heappush_def)
      from "2.IH"(1)[OF Inr refl True l this] show ?thesis .
    next
      case False
      from "2.prems" Inr False
      have l: "bfs_links w a current_url depth vis page_content tags q categories = (q', r)"
        by (simp add: Let_def)
      from "2.IH"(2)[OF Inr refl False l "2.prems"(2)] show ?thesis .
    qed
  qed
qed

lemma dfs_links_no_slash:
  assumes "dfs_links w u d vis tags st cats = (st', r)"
    and "\<forall>(l, d') \<in> set st. P l" and "\<And>s. P (rstrip ''/'' s)"
  shows "\<forall>(l, d') \<in> set st'. P l"
  using assms(1,2)
proof (induction w u d vis tags st cats rule: dfs_links.induct)
  case (1 w current_url depth vis st categories)
  then show ?case by simp
next
  case (2 w current_url depth vis href tag_text tags st categories)
  show ?case
  proof (cases "urljoin w current_url href")
    case (Inl e)
    with "2.prems" show ?thesis by auto
  next
    case (Inr joined)
    let ?link = "rstrip ''/'' joined"
    show ?thesis
    proof (cases "?link |\<notin>| vis")
      case True
      from "2.prems" Inr True
      have l: "dfs_links w current_url depth vis tags (st @ [(?link, depth + 1)])
              (add_link categories tag_text ?link) = (st', r)"
        by (simp add: Let_def)
      have "\<forall>(l, d') \<in> set (st @ [(?link, depth + 1)]). P l"
        using "2.prems"(2) assms(3) by auto
      from "2.IH"(1)[OF Inr refl True l this] show ?thesis .
    next
      case False
      from "2.prems" Inr False
      have l: "dfs_links w current_url depth vis tags st categories = (st', r)"
        by (simp add: Let_def)
      from "2.IH"(2)[OF Inr refl False l "2.prems"(2)] show ?thesis .
    qed
  qed
qed

text \<open>
  Every address in the frontier or in \<open>visited\<close> is the seed as it was passed or has no
  trailing slash: the links are stripped, the seed is not.
\<close>

lemma bfs_steps_slash:
  assumes "bfs_steps w a (bfs_init a) t"
  shows "(\<forall>(p, l, d) \<in> set (queue t). l = start_url a \<or> no_trailing_slash l) \<and>
         (\<forall>u. u |\<in>| visited t \<longrightarrow> u = start_url a \<or> no_trailing_slash u)"
  using assms
proof (induction rule: bfs_steps.induct)
  case bfs_steps_refl
  show ?case by (simp add: bfs_init_def)
next
  case (bfs_steps_step t)
  let ?P = "\<lambda>l. l = start_url a \<or> no_trailing_slash l"
  let ?t = "polled a t"
  from bfs_steps_step.IH have qi: "\<forall>(p, l, d) \<in> set (queue ?t). ?P l"
    and vi: "\<forall>u. u |\<in>| visited ?t \<longrightarrow> ?P u" by simp_all
  from bfs_steps_step have "queue ?t \<noteq> []" by (simp add: bfs_continue_def)
  then show ?case
  proof (cases rule: bfs_body_cases[where w = w and a = a])
    case (skip sc u d rest)
    from heappop_Some(2)[OF skip(1)] have "set rest \<subseteq> set (queue ?t)"
      by (simp add: set_remove1_subset)
    with qi vi skip(3) show ?thesis by auto
  next
    case (fail sc u d rest e)
    from heappop_Some(2)[OF fail(1)] have "set rest \<subseteq> set (queue ?t)"
      by (simp add: set_remove1_subset)
    with qi vi fail(5) show ?thesis by auto
  next
    case (ok sc u d rest soup q r)
    from heappop_Some(2)[OF ok(1)] have sub: "set rest \<subseteq> set (queue ?t)"
      by (simp add: set_remove1_subset)
    then have ri: "\<forall>(p, l, d) \<in> set rest. ?P l" using qi by auto
    have "?P u" using heappop_Some(1)[OF ok(1)] qi by auto
    have qq: "\<forall>(p, l, d) \<in> set q. ?P l"
      by (rule bfs_links_no_slash[OF ok(5) ri]) (simp add: rstrip_no_trailing_slash)
    from ok(6) have "queue (bfs_body w a ?t) = q"
      and "visited (bfs_body w a ?t) = finsert u (visited ?t)"
      by (cases r; simp add: Let_def)+
    with qq vi \<open>?P u\<close> show ?thesis by auto
  qed
qed

lemma dfs_steps_slash:
  assumes "dfs_steps w a (dfs_init a) t"
  shows "(\<forall>(l, d) \<in> set (stack t). l = start_url a \<or> no_trailing_slash l) \<and>
         (\<forall>u. u |\<in>| visited t \<longrightarrow> u = start_url a \<or> no_trailing_slash u)"
  using assms
proof (induction rule: dfs_steps.induct)
  case dfs_steps_refl
  show ?case by (simp add: dfs_init_def)
next
  case (dfs_steps_step t)
  let ?P = "\<lambda>l. l = start_url a \<or> no_trailing_slash l"
  let ?t = "polled a t"
  from dfs_steps_step.IH have qi: "\<forall>(l, d) \<in> set (stack ?t). ?P l"
    and vi: "\<forall>u. u |\<in>| visited ?t \<longrightarrow> ?P u" by simp_all
  from dfs_steps_step have "stack ?t \<noteq> []" by (simp add: dfs_continue_def)
  then show ?case
  proof (cases rule: dfs_body_cases[where w = w and a = a])
    case (skip u d rest)
    from stack_pop_Some[OF skip(1)] have "set rest \<subseteq> set (stack ?t)" by auto
    with qi vi skip(3) show ?thesis by auto
  next
    case (fail u d rest e)
    from stack_pop_Some[OF fail(1)] have "set rest \<subseteq> set (stack ?t)" by auto
    with qi vi fail(5) show ?thesis by auto
  next
    case (ok u d rest soup st r)
    from stack_pop_Some[OF ok(1)] have st: "stack ?t = rest @ [(u, d)]" .
    then have ri: "\<forall>(l, d) \<in> set rest. ?P l" using qi by auto
    have "?P u" using st qi by auto
    have qq: "\<forall>(l, d) \<in> set st. ?P l"
      by (rule dfs_links_no_slash[OF ok(5) ri]) (simp add: rstrip_no_trailing_slash)
    from ok(6) have "stack (dfs_body w a ?t) = st"
      and "visited (dfs_body w a ?t) = finsert u (visited ?t)"
      by (cases r; simp add: Let_def)+
    with qq vi \<open>?P u\<close> show ?thesis by auto
  qed
qed


lemma visited_stripped_except_seed:
  "(bfs_steps w a (bfs_init a) t \<longrightarrow>
      (\<forall>u. u |\<in>| visited t \<longrightarrow> u = start_url a \<or> no_trailing_slash u)) \<and>
   (dfs_steps w a (dfs_init a) t' \<longrightarrow>
      (\<forall>u. u |\<in>| visited t' \<longrightarrow> u = start_url a \<or> no_trailing_slash u)) \<and>
   (\<forall>u. u |\<in>| visited (bfs_final w a) \<longrightarrow> u = start_url a \<or> no_trailing_slash u) \<and>
   (\<forall>u. u |\<in>| visited (dfs_final w a) \<longrightarrow> u = start_url a \<or> no_trailing_slash u)"
proof -
  from bfs_final_end[of w a] obtain tb where
    "bfs_steps w a (bfs_init a) tb" and "visited (bfs_final w a) = visited tb"
    by auto
  with bfs_steps_slash[of w a tb]
  have b: "\<forall>u. u |\<in>| visited (bfs_final w a) \<longrightarrow> u = start_url a \<or> no_trailing_slash u"
    by simp
  from dfs_final_end[of w a] obtain td where
    "dfs_steps w a (dfs_init a) td" and "visited (dfs_final w a) = visited td"
    by auto
  with dfs_steps_slash[of w a td]
  have d: "\<forall>u. u |\<in>| visited (dfs_final w a) \<longrightarrow> u = start_url a \<or> no_trailing_slash u"
    by simp
  show ?thesis using b d bfs_steps_slash[of w a t] dfs_steps_slash[of w a t'] by blast
qed

text \<open>
  Claim C7 says that, for any seed, no address in \<open>visited\<close> ends with \<open>/\<close>. The links
  are stripped before they are pushed, the seed is pushed as it was passed: the crawl
  started at \<open>http://a/\<close> fetches the seed and stores it in \<open>visited\<close> with its
  trailing slash, under both strategies. The home link of the page, stripped to
  \<open>http://a\<close>, is then not found in \<open>visited\<close>, and the same page is fetched a
  second time.
\<close>

theorem seed_keeps_trailing_slash:
  "start_url slash_args = ''http://a/'' \<and>
   last ''http://a/'' = CHR ''/'' \<and>
   ''http://a/'' |\<in>| visited (bfs_final slash_world slash_args) \<and>
   ''http://a/'' |\<in>| visited (dfs_final slash_world slash_args) \<and>
   visited (bfs_final slash_world slash_args) = {|''http://a/'', ''http://a''|} \<and>
   visited (dfs_final slash_world slash_args) = {|''http://a/'', ''http://a''|} \<and>
   fetch_log (bfs_final slash_world slash_args) = [(''http://a/'', 0), (''http://a'', 1)] \<and>
   fetch_log (dfs_final slash_world slash_args) = [(''http://a/'', 0), (''http://a'', 1)]"
  by code_simp

end
